theory Spec2Isabelle
  imports Main "HOL-Library.Sublist"
begin

section \<open>Command-line values\<close>

text \<open>
  The script \<^verbatim>\<open>preziscrtaker.js\<close> reads four options from the object that the
  argument parser returns. An option is a JavaScript value: absent (\<^verbatim>\<open>undefined\<close>),
  a boolean (a flag without a value), a number or a string. Numbers are modelled as
  integers, the kind the options \<^verbatim>\<open>--width\<close> and \<^verbatim>\<open>--height\<close> are meant for;
  repeated options (arrays) are left out.
\<close>

datatype jsval = JUndefined | JNull | JBool bool | JNum int | JStr string

text \<open>JavaScript's conversion to a boolean, as used by \<^verbatim>\<open>||\<close> and \<^verbatim>\<open>!\<close>.\<close>

fun truthy :: "jsval \<Rightarrow> bool" where
  "truthy JUndefined = False"
| "truthy JNull = False"
| "truthy (JBool b) = b"
| "truthy (JNum i) = (i \<noteq> 0)"
| "truthy (JStr s) = (s \<noteq> [])"

definition js_or :: "jsval \<Rightarrow> jsval \<Rightarrow> jsval" where
  "js_or a b = (if truthy a then a else b)"

record argv =
  arg_url :: jsval
  arg_out :: jsval
  arg_height :: jsval
  arg_width :: jsval

text \<open>Lines 24, 25, 36 and 37: the four constants of a session.\<close>

definition prezi :: "argv \<Rightarrow> jsval" where
  "prezi a = js_or (arg_url a) JNull"

definition out :: "argv \<Rightarrow> jsval" where
  "out a = js_or (arg_out a) (JStr ''img'')"

definition height :: "argv \<Rightarrow> jsval" where
  "height a = js_or (arg_height a) (JNum 842)"

definition width :: "argv \<Rightarrow> jsval" where
  "width a = js_or (arg_width a) (JNum 595)"

text \<open>Lines 40 to 44: the selectors.\<close>

definition cookieAcceptBtn :: string where
  "cookieAcceptBtn = ''#onetrust-accept-btn-handler''"

definition presentDiv :: string where
  "presentDiv = ''.viewer-common-info-overlay-button-small-filled''"

definition fullscr :: string where
  "fullscr = ''.webgl-viewer-navbar-fullscreen-enter-icon''"

definition nxt :: string where
  "nxt = ''.webgl-viewer-navbar-next-icon''"

definition breaker :: string where
  "breaker = ''.viewer-common-info-overlay-button-label''"

section \<open>Template literals\<close>

text \<open>
  The path of a slide is the template literal \<^verbatim>\<open>`${out}/prezi-${n}.png`\<close>: both
  holes are converted to strings. The counter is a natural number, printed in decimal.
\<close>

definition digit_char :: "nat \<Rightarrow> char" where
  "digit_char d = ''0123456789'' ! (d mod 10)"

function string_of_nat :: "nat \<Rightarrow> string" where
  "string_of_nat k = (if k < 10 then [digit_char k] else string_of_nat (k div 10) @ [digit_char (k mod 10)])"
  by pat_completeness auto
termination
  by (relation "measure (\<lambda>k. k)") auto

declare string_of_nat.simps [simp del]

fun js_toString :: "jsval \<Rightarrow> string" where
  "js_toString JUndefined = ''undefined''"
| "js_toString JNull = ''null''"
| "js_toString (JBool b) = (if b then ''true'' else ''false'')"
| "js_toString (JNum i) = (if i < 0 then ''-'' @ string_of_nat (nat (- i)) else string_of_nat (nat i))"
| "js_toString (JStr s) = s"

definition outputPath :: "jsval \<Rightarrow> nat \<Rightarrow> string" where
  "outputPath dir k = js_toString dir @ ''/prezi-'' @ string_of_nat k @ ''.png''"

section \<open>The outside world\<close>

text \<open>
  Everything the script does goes through a library: the file system, the browser
  automation layer, the image library, the console and timers. Each such call is an
  entry of the session's trace. The world answers a call as a function of the calls made
  before it: whether the call returns or throws (a promise resolves or rejects), what a
  presence test finds, what a screenshot holds, and what raster the image library
  produces for a resize request.
\<close>

datatype fit = Cover | Contain | Fill | Inside | Outside

record raster =
  px_width :: nat
  px_height :: nat
  px_data :: "nat list"

datatype call =
    ExistsSync jsval
  | MkdirSync jsval
  | Launch bool "string list"
  | NewPage
  | SetViewport jsval jsval int
  | SetUserAgent string
  | Goto jsval nat
  | WaitForSelector string "nat option"
  | Click string
  | Query string
  | MouseMove int int
  | Screenshot
  | SharpToFile raster nat nat fit string
  | SetTimeout nat
  | BrowserClose
  | ConsoleLog string
  | ConsoleError string

record environment =
  resolves :: "call list \<Rightarrow> call \<Rightarrow> bool"
  found :: "call list \<Rightarrow> call \<Rightarrow> bool"
  shot :: "call list \<Rightarrow> raster"
  resized :: "raster \<Rightarrow> nat \<Rightarrow> nat \<Rightarrow> fit \<Rightarrow> raster"

text \<open>
  The state of a run: the counter \<^verbatim>\<open>n\<close> of line 98, the calls made so far (oldest
  first) and the files of the persistent store.
\<close>

record state =
  n_slide :: nat
  trace :: "call list"
  files :: "string \<rightharpoonup> raster"

datatype error = Error string | Rejection call

text \<open>
  How a statement ends: normally, by \<^verbatim>\<open>break\<close>, by a thrown error, by
  \<^verbatim>\<open>process.exit\<close>, or not within the number of loop iterations allowed.
\<close>

datatype completion = Normal | Break | Throw error | Exit nat | OutOfFuel

type_synonym stmt = "state \<Rightarrow> completion \<times> state"

section \<open>Statements\<close>

definition skip :: stmt where
  "skip s = (Normal, s)"

definition break :: stmt where
  "break s = (Break, s)"

definition throw :: "error \<Rightarrow> stmt" where
  "throw e s = (Throw e, s)"

definition process_exit :: "nat \<Rightarrow> stmt" where
  "process_exit code s = (Exit code, s)"

text \<open>A sequence of statements stops at the first one that does not end normally.\<close>

fun block :: "stmt list \<Rightarrow> stmt" where
  "block [] s = (Normal, s)"
| "block (c # cs) s = (case c s of (Normal, s') \<Rightarrow> block cs s' | r \<Rightarrow> r)"

text \<open>\<^verbatim>\<open>try { body } catch (e) { handler }\<close>: only a thrown error reaches the handler.\<close>

definition try_catch :: "stmt \<Rightarrow> (error \<Rightarrow> stmt) \<Rightarrow> stmt" where
  "try_catch body handler s = (case body s of (Throw e, s') \<Rightarrow> handler e s' | r \<Rightarrow> r)"

text \<open>\<^verbatim>\<open>while (true) { body }\<close>, cut off after \<open>fuel\<close> iterations.\<close>

fun while_true :: "nat \<Rightarrow> stmt \<Rightarrow> stmt" where
  "while_true 0 body s = (OutOfFuel, s)"
| "while_true (Suc fuel) body s =
     (case body s of
        (Normal, s') \<Rightarrow> while_true fuel body s'
      | (Break, s') \<Rightarrow> (Normal, s')
      | r \<Rightarrow> r)"

text \<open>A library call that returns nothing of interest: it is recorded, and it throws
  when the world rejects it.\<close>

definition invoke :: "environment \<Rightarrow> call \<Rightarrow> stmt" where
  "invoke env c s =
     (if resolves env (trace s) c then Normal else Throw (Rejection c),
      s\<lparr>trace := trace s @ [c]\<rparr>)"

text \<open>Console output and timers are recorded and never fail.\<close>

definition emit :: "call \<Rightarrow> stmt" where
  "emit c s = (Normal, s\<lparr>trace := trace s @ [c]\<rparr>)"

text \<open>A presence test (\<^verbatim>\<open>fs.existsSync\<close>, \<^verbatim>\<open>page.$\<close>) followed by a branch on
  its result.\<close>

definition if_found :: "environment \<Rightarrow> call \<Rightarrow> stmt \<Rightarrow> stmt \<Rightarrow> stmt" where
  "if_found env c yes no s =
     (let s' = s\<lparr>trace := trace s @ [c]\<rparr> in
      if \<not> resolves env (trace s) c then (Throw (Rejection c), s')
      else if found env (trace s) c then yes s' else no s')"

text \<open>\<^verbatim>\<open>sharp(buffer).resize(w, h, {fit}).toFile(path)\<close>: on success the file at the
  path holds the raster the image library produced, whatever was there before.\<close>

definition sharp_resize_toFile :: "environment \<Rightarrow> raster \<Rightarrow> nat \<Rightarrow> nat \<Rightarrow> fit \<Rightarrow> string \<Rightarrow> stmt" where
  "sharp_resize_toFile env buf w h f path s =
     (let c = SharpToFile buf w h f path in
      if resolves env (trace s) c
      then (Normal, s\<lparr>trace := trace s @ [c], files := (files s)(path \<mapsto> resized env buf w h f)\<rparr>)
      else (Throw (Rejection c), s\<lparr>trace := trace s @ [c]\<rparr>))"

section \<open>The script\<close>

text \<open>Lines 146 to 157.\<close>

definition captureCroppedScreenshot :: "environment \<Rightarrow> string \<Rightarrow> stmt" where
  "captureCroppedScreenshot env outputPath' s =
     (let s' = s\<lparr>trace := trace s @ [Screenshot]\<rparr> in
      if \<not> resolves env (trace s) Screenshot then (Throw (Rejection Screenshot), s')
      else
        (let screenshotBuffer = shot env (trace s) in
         sharp_resize_toFile env screenshotBuffer 1280 720 Cover outputPath' s'))"

text \<open>Lines 27 to 33: the check of the URL and the creation of the output directory.\<close>

definition checkUrl :: "argv \<Rightarrow> stmt" where
  "checkUrl a =
     (\<lambda>s. if \<not> truthy (prezi a)
          then throw (Error ''PREZI NOT FOUND. Please provide --url argument.'') s
          else skip s)"

definition ensureOutDir :: "environment \<Rightarrow> argv \<Rightarrow> stmt" where
  "ensureOutDir env a =
     (\<lambda>s. let s' = s\<lparr>trace := trace s @ [ExistsSync (out a)]\<rparr> in
          if \<not> found env (trace s) (ExistsSync (out a))
          then invoke env (MkdirSync (out a)) s'
          else skip s')"

text \<open>Lines 47 to 63: launch, page, viewport, user agent, navigation.\<close>

definition userAgent :: string where
  "userAgent = ''Mozilla/5.0 (Windows NT 10.0; Win64; x64) AppleWebKit/537.36 '' @
               ''(KHTML, like Gecko) Chrome/115.0.0.0 Safari/537.36''"

definition init :: "environment \<Rightarrow> argv \<Rightarrow> stmt" where
  "init env a = block
     [emit (ConsoleLog ''Launching Puppeteer with bundled Chromium...''),
      invoke env (Launch True [''--no-sandbox'', ''--disable-setuid-sandbox'']),
      invoke env NewPage,
      invoke env (SetViewport (width a) (height a) 1),
      invoke env (SetUserAgent userAgent),
      emit (ConsoleLog ''Navigating to Prezi...''),
      invoke env (Goto (prezi a) 3000000)]"

text \<open>Lines 66 to 72.\<close>

definition consentDismissal :: "environment \<Rightarrow> stmt" where
  "consentDismissal env = try_catch
     (block
       [invoke env (WaitForSelector cookieAcceptBtn (Some 5000)),
        invoke env (Click cookieAcceptBtn),
        emit (ConsoleLog ''Clicked 'Accept All Cookies'.'')])
     (\<lambda>e. emit (ConsoleLog ''No cookie prompt found or timed out waiting for it. Continuing...''))"

text \<open>Lines 75 to 81.\<close>

definition presentEntry :: "environment \<Rightarrow> stmt" where
  "presentEntry env = try_catch
     (block
       [invoke env (WaitForSelector presentDiv (Some 10000)),
        invoke env (Click presentDiv),
        emit (ConsoleLog ''Clicked the Present button (div).'')])
     (\<lambda>e. emit (ConsoleLog ''No Present button found or timed out waiting for it. Continuing...''))"

text \<open>Lines 84 to 91.\<close>

definition viewerReady :: "environment \<Rightarrow> stmt" where
  "viewerReady env = try_catch
     (block
       [emit (ConsoleLog ''Waiting for the Prezi viewer to load...''),
        invoke env (WaitForSelector fullscr (Some 30000))])
     (\<lambda>e. block
       [emit (ConsoleError ''Timed out waiting for the fullscreen button. The viewer may not have loaded properly.''),
        invoke env BrowserClose,
        process_exit 1])"

text \<open>Lines 93 to 96.\<close>

definition fullscreenEnter :: "environment \<Rightarrow> stmt" where
  "fullscreenEnter env = block
     [emit (ConsoleLog ''Prezi viewer loaded. Taking screenshots...''),
      invoke env (Click fullscr)]"

text \<open>Lines 98 to 109. The wait for the next control is given no timeout of its own.\<close>

definition firstCapture :: "environment \<Rightarrow> argv \<Rightarrow> stmt" where
  "firstCapture env a = block
     [(\<lambda>s. (Normal, s\<lparr>n_slide := 0\<rparr>)),
      emit (SetTimeout 500),
      (\<lambda>s. captureCroppedScreenshot env (outputPath (out a) (n_slide s)) s),
      invoke env (MouseMove 100 100),
      invoke env (WaitForSelector nxt None),
      invoke env (Click nxt)]"

text \<open>Lines 113 to 135: the body of the loop. The dash in the last message of the
  source is written as a hyphen here.\<close>

definition loopBody :: "environment \<Rightarrow> argv \<Rightarrow> stmt" where
  "loopBody env a = block
     [(\<lambda>s. (Normal, s\<lparr>n_slide := Suc (n_slide s)\<rparr>)),
      emit (SetTimeout 1800),
      if_found env (Query breaker)
        (block [emit (ConsoleLog ''Reached the end of the presentation.''), break])
        skip,
      (\<lambda>s. captureCroppedScreenshot env (outputPath (out a) (n_slide s)) s),
      invoke env (MouseMove 100 100),
      if_found env (Query nxt)
        skip
        (block [emit (ConsoleLog ''No 'next' button found-likely at the end.''), break]),
      invoke env (Click nxt)]"

definition advanceLoop :: "nat \<Rightarrow> environment \<Rightarrow> argv \<Rightarrow> stmt" where
  "advanceLoop fuel env a = while_true fuel (loopBody env a)"

text \<open>Lines 138 and 139.\<close>

definition shutdown :: "environment \<Rightarrow> stmt" where
  "shutdown env = block
     [invoke env BrowserClose,
      emit (ConsoleLog ''Screenshots saved. Browser closed.'')]"

text \<open>The whole script: the statements of lines 27 to 139 in their order.\<close>

definition script :: "nat \<Rightarrow> environment \<Rightarrow> argv \<Rightarrow> stmt" where
  "script fuel env a = block
     [checkUrl a, ensureOutDir env a, init env a, consentDismissal env, presentEntry env,
      viewerReady env, fullscreenEnter env, firstCapture env a, advanceLoop fuel env a,
      shutdown env]"

text \<open>A run starts with an empty trace, on the files that are already there.\<close>

definition start :: "(string \<rightharpoonup> raster) \<Rightarrow> state" where
  "start fs = \<lparr>n_slide = 0, trace = [], files = fs\<rparr>"

definition run :: "nat \<Rightarrow> environment \<Rightarrow> argv \<Rightarrow> (string \<rightharpoonup> raster) \<Rightarrow> completion \<times> state" where
  "run fuel env a fs = script fuel env a (start fs)"

section \<open>Observations on a run\<close>

text \<open>
  Parts of the script, for saying how far a session has come. A session has reached a
  statement when the statements before it have ended normally: the launch of the browser
  after \<open>configuration\<close>, the wait for the viewer after \<open>startup\<close>, the first capture
  after \<open>untilCapture\<close>. After \<open>j\<close> completed iterations of the loop, \<open>untilIteration j\<close>
  ends out of fuel, in the state in which iteration \<open>j + 1\<close> begins. \<open>iterationCapture\<close>
  is an iteration up to the test for the next control, and \<open>navigation\<close> is all that
  follows the navigation to the URL.
\<close>

definition configuration :: "environment \<Rightarrow> argv \<Rightarrow> stmt" where
  "configuration env a = block [checkUrl a, ensureOutDir env a]"

definition startup :: "environment \<Rightarrow> argv \<Rightarrow> stmt" where
  "startup env a = block
     [checkUrl a, ensureOutDir env a, init env a, consentDismissal env, presentEntry env]"

definition untilCapture :: "environment \<Rightarrow> argv \<Rightarrow> stmt" where
  "untilCapture env a = block [startup env a, viewerReady env, fullscreenEnter env]"

definition untilIteration :: "nat \<Rightarrow> environment \<Rightarrow> argv \<Rightarrow> stmt" where
  "untilIteration j env a = block [untilCapture env a, firstCapture env a, advanceLoop j env a]"

definition iterationCapture :: "environment \<Rightarrow> argv \<Rightarrow> stmt" where
  "iterationCapture env a = block
     [(\<lambda>s. (Normal, s\<lparr>n_slide := Suc (n_slide s)\<rparr>)),
      emit (SetTimeout 1800),
      if_found env (Query breaker)
        (block [emit (ConsoleLog ''Reached the end of the presentation.''), break])
        skip,
      (\<lambda>s. captureCroppedScreenshot env (outputPath (out a) (n_slide s)) s),
      invoke env (MouseMove 100 100)]"

definition navigation :: "nat \<Rightarrow> environment \<Rightarrow> argv \<Rightarrow> stmt" where
  "navigation fuel env a = block
     [consentDismissal env, presentEntry env, viewerReady env, fullscreenEnter env,
      firstCapture env a, advanceLoop fuel env a, shutdown env]"

text \<open>The paths handed to the image library, in the order of the calls, and the viewport
  a call sets.\<close>

fun written_path :: "call \<Rightarrow> string option" where
  "written_path (SharpToFile buf w h f p) = Some p"
| "written_path c = None"

definition capture_paths :: "call list \<Rightarrow> string list" where
  "capture_paths tr = List.map_filter written_path tr"

fun viewport_of :: "call \<Rightarrow> (jsval \<times> jsval \<times> int) option" where
  "viewport_of (SetViewport w h d) = Some (w, h, d)"
| "viewport_of c = None"

section \<open>Example command lines and worlds\<close>

text \<open>A command line with no option at all, and one with only the URL.\<close>

definition no_args :: argv where
  "no_args = \<lparr>arg_url = JUndefined, arg_out = JUndefined, arg_height = JUndefined, arg_width = JUndefined\<rparr>"

definition only_url :: argv where
  "only_url = no_args\<lparr>arg_url := JStr ''https://prezi.com/view/abc/''\<rparr>"

text \<open>
  A well-behaved deck of \<open>k\<close> slides: every call succeeds, the output directory does not
  exist yet, the next control is always there, and the end-of-deck overlay is shown once
  the next control has been clicked \<open>k\<close> times. The viewport is captured at 595 by 842
  and the image library returns a raster of the size it was asked for.
\<close>

definition deck :: "nat \<Rightarrow> environment" where
  "deck k =
     \<lparr>resolves = (\<lambda>h c. True),
      found = (\<lambda>h c. case c of
                 Query sel \<Rightarrow> (if sel = breaker then k \<le> count_list h (Click nxt) else True)
               | _ \<Rightarrow> False),
      shot = (\<lambda>h. \<lparr>px_width = 595, px_height = 842, px_data = []\<rparr>),
      resized = (\<lambda>buf w h f. \<lparr>px_width = w, px_height = h, px_data = px_data buf\<rparr>)\<rparr>"



definition no_marker :: environment where
  "no_marker = (deck 2)\<lparr>found := (\<lambda>h c. False)\<rparr>"

section \<open>Notions for the proofs\<close>

text \<open>
  Relations between the state before and the state after a statement: the trace has only
  grown, by calls of a given kind; and the files and the counter are the same besides. A
  statement obeys a relation when every execution of it is in the relation. A quiet call
  neither closes the browser nor takes or writes a screenshot. A statement is free of
  fuel when it never ends for lack of it.
\<close>

definition appends :: "(call \<Rightarrow> bool) \<Rightarrow> state \<Rightarrow> state \<Rightarrow> bool" where
  "appends P s s' = (\<exists>t. trace s' = trace s @ t \<and> list_all P t)"

definition calm :: "(call \<Rightarrow> bool) \<Rightarrow> state \<Rightarrow> state \<Rightarrow> bool" where
  "calm P s s' = (appends P s s' \<and> files s' = files s \<and> n_slide s' = n_slide s)"

definition preorder_on_states :: "(state \<Rightarrow> state \<Rightarrow> bool) \<Rightarrow> bool" where
  "preorder_on_states R = ((\<forall>s. R s s) \<and> (\<forall>s t u. R s t \<and> R t u \<longrightarrow> R s u))"

definition obeys :: "(state \<Rightarrow> state \<Rightarrow> bool) \<Rightarrow> stmt \<Rightarrow> bool" where
  "obeys R c = (\<forall>s. R s (snd (c s)))"

definition quiet :: "call \<Rightarrow> bool" where
  "quiet c = (c \<noteq> BrowserClose \<and> c \<noteq> Screenshot \<and> written_path c = None)"

definition no_capture :: "call \<Rightarrow> bool" where
  "no_capture c = (written_path c = None)"

definition session_viewport :: "argv \<Rightarrow> call \<Rightarrow> bool" where
  "session_viewport a c = (viewport_of c = None \<or> viewport_of c = Some (width a, height a, 1))"

definition fuel_free :: "stmt \<Rightarrow> bool" where
  "fuel_free c = (\<forall>s. fst (c s) \<noteq> OutOfFuel)"

text \<open>
  The invariant of the capture loop: the image library has been called for the paths of
  the indices below \<open>m\<close>, in this order; the files of the indices below \<open>w\<close> exist; and no
  other file differs from the initial store \<open>fs\<close>. At the head of the loop both numbers are
  the counter plus one.
\<close>

definition slides_captured :: "argv \<Rightarrow> (string \<rightharpoonup> raster) \<Rightarrow> nat \<Rightarrow> nat \<Rightarrow> state \<Rightarrow> bool" where
  "slides_captured a fs m w s =
     (capture_paths (trace s) = map (outputPath (out a)) [0..<m]
      \<and> (\<forall>p. p \<notin> outputPath (out a) ` {..<m} \<longrightarrow> files s p = fs p)
      \<and> (\<forall>i<w. files s (outputPath (out a) i) \<noteq> None))"

definition at_loop_head :: "argv \<Rightarrow> (string \<rightharpoonup> raster) \<Rightarrow> state \<Rightarrow> bool" where
  "at_loop_head a fs s = slides_captured a fs (Suc (n_slide s)) (Suc (n_slide s)) s"

definition anywhere :: "argv \<Rightarrow> (string \<rightharpoonup> raster) \<Rightarrow> state \<Rightarrow> bool" where
  "anywhere a fs s =
     (slides_captured a fs (n_slide s) (n_slide s) s \<or> slides_captured a fs (Suc (n_slide s)) (n_slide s) s)"

definition at_loop_exit :: "argv \<Rightarrow> (string \<rightharpoonup> raster) \<Rightarrow> state \<Rightarrow> bool" where
  "at_loop_exit a fs s =
     (0 < n_slide s \<and>
      (slides_captured a fs (n_slide s) (n_slide s) s
       \<or> slides_captured a fs (Suc (n_slide s)) (Suc (n_slide s)) s))"

text \<open>Reading a decimal string back, for the injectivity of the printing.\<close>

definition digit_value :: "char \<Rightarrow> nat" where
  "digit_value c = length (takeWhile (\<lambda>d. d \<noteq> c) ''0123456789'')"

definition nat_of_string :: "string \<Rightarrow> nat" where
  "nat_of_string cs = foldl (\<lambda>acc c. 10 * acc + digit_value c) 0 cs"

section \<open>Basic facts\<close>

lemma selectors_distinct:
  "cookieAcceptBtn \<noteq> presentDiv" "cookieAcceptBtn \<noteq> fullscr" "cookieAcceptBtn \<noteq> nxt"
  "cookieAcceptBtn \<noteq> breaker" "presentDiv \<noteq> fullscr" "presentDiv \<noteq> nxt"
  "presentDiv \<noteq> breaker" "fullscr \<noteq> nxt" "fullscr \<noteq> breaker" "nxt \<noteq> breaker"
  by (simp_all add: cookieAcceptBtn_def presentDiv_def fullscr_def nxt_def breaker_def)

lemma block_append:
  "block (cs @ ds) s = (case block cs s of (Normal, s') \<Rightarrow> block ds s' | r \<Rightarrow> r)"
  by (induction cs arbitrary: s) (auto split: prod.splits completion.splits)

lemma session_constants_update:
  "prezi (a\<lparr>arg_width := v\<rparr>) = prezi a" "out (a\<lparr>arg_width := v\<rparr>) = out a"
  "height (a\<lparr>arg_width := v\<rparr>) = height a"
  "prezi (a\<lparr>arg_height := v\<rparr>) = prezi a" "out (a\<lparr>arg_height := v\<rparr>) = out a"
  "width (a\<lparr>arg_height := v\<rparr>) = width a"
  "prezi (a\<lparr>arg_out := v\<rparr>) = prezi a" "height (a\<lparr>arg_out := v\<rparr>) = height a"
  "width (a\<lparr>arg_out := v\<rparr>) = width a"
  by (simp_all add: prezi_def out_def height_def width_def)

text \<open>The script reads the command line only through its four constants.\<close>

lemma script_depends_on_constants:
  assumes "prezi a = prezi b" "out a = out b" "height a = height b" "width a = width b"
  shows "script fuel env a = script fuel env b"
  unfolding script_def checkUrl_def ensureOutDir_def init_def firstCapture_def loopBody_def
    advanceLoop_def assms ..

lemmas stmt_defs = skip_def break_def throw_def process_exit_def invoke_def emit_def if_found_def
  try_catch_def sharp_resize_toFile_def captureCroppedScreenshot_def

lemmas phase_defs = checkUrl_def ensureOutDir_def init_def consentDismissal_def presentEntry_def
  viewerReady_def fullscreenEnter_def firstCapture_def loopBody_def advanceLoop_def shutdown_def

lemma appends_refl: "appends P s s"
  by (simp add: appends_def)

lemma appends_trans: "appends P s t \<Longrightarrow> appends P t u \<Longrightarrow> appends P s u"
  by (auto simp: appends_def)

lemma appends_one: "P c \<Longrightarrow> appends P s (s\<lparr>trace := trace s @ [c]\<rparr>)"
  by (simp add: appends_def)

lemma preorder_appends: "preorder_on_states (appends P)"
  unfolding preorder_on_states_def using appends_refl appends_trans by blast

lemma preorder_calm: "preorder_on_states (calm P)"
  unfolding preorder_on_states_def calm_def by (auto intro: appends_refl appends_trans)

lemma obeys_block:
  assumes "preorder_on_states R" and "\<And>c. c \<in> set cs \<Longrightarrow> obeys R c"
  shows "obeys R (block cs)"
proof -
  have "R s (snd (block cs s))" for s
    using assms(2)
  proof (induction cs arbitrary: s)
    case Nil
    then show ?case using assms(1) by (simp add: preorder_on_states_def)
  next
    case (Cons c cs)
    obtain k s' where cs: "c s = (k, s')" by (cases "c s")
    have step: "R s s'"
      using Cons.prems [of c] cs by (simp add: obeys_def) (metis snd_conv)
    show ?case
    proof (cases k)
      case Normal
      have "R s' (snd (block cs s'))"
        using Cons.IH Cons.prems by simp
      with step have "R s (snd (block cs s'))"
        using assms(1) unfolding preorder_on_states_def by blast
      with cs Normal show ?thesis by simp
    qed (use cs step in simp_all)
  qed
  then show ?thesis by (simp add: obeys_def)
qed

lemma obeys_try_catch:
  assumes "preorder_on_states R" and "obeys R body" and "\<And>e. obeys R (handler e)"
  shows "obeys R (try_catch body handler)"
proof -
  have "R s (snd (try_catch body handler s))" for s
  proof -
    obtain k s' where b: "body s = (k, s')" by (cases "body s")
    have step: "R s s'"
      using assms(2) b by (simp add: obeys_def) (metis snd_conv)
    show ?thesis
    proof (cases k)
      case (Throw e)
      have "R s' (snd (handler e s'))"
        using assms(3) by (simp add: obeys_def)
      with step have "R s (snd (handler e s'))"
        using assms(1) unfolding preorder_on_states_def by blast
      with b Throw show ?thesis by (simp add: try_catch_def)
    qed (use b step in \<open>simp_all add: try_catch_def\<close>)
  qed
  then show ?thesis by (simp add: obeys_def)
qed

lemma obeys_while_true:
  assumes "preorder_on_states R" and "obeys R body"
  shows "obeys R (while_true fuel body)"
proof -
  have "R s (snd (while_true fuel body s))" for s
  proof (induction fuel arbitrary: s)
    case 0
    then show ?case using assms(1) by (simp add: preorder_on_states_def)
  next
    case (Suc fuel)
    obtain k s' where b: "body s = (k, s')" by (cases "body s")
    have step: "R s s'"
      using assms(2) b by (simp add: obeys_def) (metis snd_conv)
    show ?case
    proof (cases k)
      case Normal
      from step Suc.IH [of s'] have "R s (snd (while_true fuel body s'))"
        using assms(1) unfolding preorder_on_states_def by blast
      with b Normal show ?thesis by simp
    qed (use b step in simp_all)
  qed
  then show ?thesis by (simp add: obeys_def)
qed

lemma obeys_appends_invoke: "P c \<Longrightarrow> obeys (appends P) (invoke env c)"
  by (simp add: obeys_def invoke_def appends_def)

lemma obeys_appends_emit: "P c \<Longrightarrow> obeys (appends P) (emit c)"
  by (simp add: obeys_def emit_def appends_def)

lemma obeys_appends_if_found:
  assumes "P c" "obeys (appends P) yes" "obeys (appends P) no"
  shows "obeys (appends P) (if_found env c yes no)"
  unfolding obeys_def if_found_def Let_def
proof (intro allI)
  fix s :: state
  let ?s = "s\<lparr>trace := trace s @ [c]\<rparr>"
  have 1: "appends P s ?s" using assms(1) by (rule appends_one)
  have 2: "appends P ?s (snd (yes ?s))" "appends P ?s (snd (no ?s))"
    using assms(2,3) by (simp_all add: obeys_def)
  show "appends P s (snd (if \<not> resolves env (trace s) c then (Throw (Rejection c), ?s)
          else if found env (trace s) c then yes ?s else no ?s))"
    using 1 2 appends_trans by auto
qed

lemma obeys_appends_simple:
  "obeys (appends P) skip" "obeys (appends P) break" "obeys (appends P) (throw e)"
  "obeys (appends P) (process_exit k)"
  by (simp_all add: obeys_def stmt_defs appends_def)

section \<open>The command line\<close>

text \<open>
  Claim C10. The defaults are chosen by \<^verbatim>\<open>||\<close>, which tests falsiness: the width 0
  gives the viewport width 595, the height 0 gives the viewport height 842 and the empty
  output directory gives \<^verbatim>\<open>img\<close>; in each case the whole run is the run of the
  command line without that option.
\<close>

theorem falsy_arguments_default:
  "width (a\<lparr>arg_width := JNum 0\<rparr>) = JNum 595 \<and>
   height (a\<lparr>arg_height := JNum 0\<rparr>) = JNum 842 \<and>
   out (a\<lparr>arg_out := JStr []\<rparr>) = JStr ''img'' \<and>
   run fuel env (a\<lparr>arg_width := JNum 0\<rparr>) fs = run fuel env (a\<lparr>arg_width := JUndefined\<rparr>) fs \<and>
   run fuel env (a\<lparr>arg_height := JNum 0\<rparr>) fs = run fuel env (a\<lparr>arg_height := JUndefined\<rparr>) fs \<and>
   run fuel env (a\<lparr>arg_out := JStr []\<rparr>) fs = run fuel env (a\<lparr>arg_out := JUndefined\<rparr>) fs"
proof -
  have w: "width (a\<lparr>arg_width := JNum 0\<rparr>) = width (a\<lparr>arg_width := JUndefined\<rparr>)"
    and h: "height (a\<lparr>arg_height := JNum 0\<rparr>) = height (a\<lparr>arg_height := JUndefined\<rparr>)"
    and o: "out (a\<lparr>arg_out := JStr []\<rparr>) = out (a\<lparr>arg_out := JUndefined\<rparr>)"
    by (simp_all add: width_def height_def out_def js_or_def)
  have "script fuel env (a\<lparr>arg_width := JNum 0\<rparr>) = script fuel env (a\<lparr>arg_width := JUndefined\<rparr>)"
    by (rule script_depends_on_constants) (simp_all add: session_constants_update w)
  moreover have "script fuel env (a\<lparr>arg_height := JNum 0\<rparr>) = script fuel env (a\<lparr>arg_height := JUndefined\<rparr>)"
    by (rule script_depends_on_constants) (simp_all add: session_constants_update h)
  moreover have "script fuel env (a\<lparr>arg_out := JStr []\<rparr>) = script fuel env (a\<lparr>arg_out := JUndefined\<rparr>)"
    by (rule script_depends_on_constants) (simp_all add: session_constants_update o)
  ultimately show ?thesis
    by (simp add: run_def width_def height_def out_def js_or_def)
qed

text \<open>
  Claim C6. Without \<^verbatim>\<open>--url\<close> the script throws the error whose message starts with
  \<^verbatim>\<open>PREZI NOT FOUND\<close> before it has called any library: the trace is empty, so no
  browser was launched and none is left to close, and the files are untouched.
\<close>

theorem missing_url_aborts_before_launch:
  assumes "arg_url a = JUndefined"
  shows "run fuel env a fs =
           (Throw (Error ''PREZI NOT FOUND. Please provide --url argument.''), start fs)
       \<and> prefix ''PREZI NOT FOUND'' ''PREZI NOT FOUND. Please provide --url argument.''
       \<and> trace (snd (run fuel env a fs)) = []
       \<and> files (snd (run fuel env a fs)) = fs"
  using assms
  by (simp add: run_def script_def checkUrl_def prezi_def js_or_def throw_def start_def)

theorem missing_url_aborts_before_launch_witness:
  "arg_url no_args = JUndefined
   \<and> run 7 (deck 5) no_args Map.empty =
       (Throw (Error ''PREZI NOT FOUND. Please provide --url argument.''), start Map.empty)
   \<and> trace (snd (run 7 (deck 5) no_args Map.empty)) = []"
proof -
  have h: "arg_url no_args = JUndefined"
    by (simp add: no_args_def)
  show ?thesis
    using h missing_url_aborts_before_launch [OF h, of 7 "deck 5" Map.empty]
    by (simp add: start_def)
qed

section \<open>The phases before the first capture\<close>

lemma obeys_block_list: "preorder_on_states R \<Longrightarrow> list_all (obeys R) cs \<Longrightarrow> obeys R (block cs)"
  by (rule obeys_block) (simp_all add: list_all_iff)

lemma obeys_calm_invoke: "P c \<Longrightarrow> obeys (calm P) (invoke env c)"
  by (simp add: obeys_def invoke_def calm_def appends_def)

lemma obeys_calm_emit: "P c \<Longrightarrow> obeys (calm P) (emit c)"
  by (simp add: obeys_def emit_def calm_def appends_def)

lemma obeys_calm_checkUrl: "obeys (calm P) (checkUrl a)"
  by (simp add: obeys_def checkUrl_def throw_def skip_def calm_def appends_def)

lemma obeys_calm_ensureOutDir:
  "P (ExistsSync (out a)) \<Longrightarrow> P (MkdirSync (out a)) \<Longrightarrow> obeys (calm P) (ensureOutDir env a)"
  by (simp add: obeys_def ensureOutDir_def invoke_def skip_def calm_def appends_def Let_def)

lemma obeys_calm_init: "obeys (calm quiet) (init env a)"
  unfolding init_def
  by (rule obeys_block_list [OF preorder_calm])
     (simp add: obeys_calm_invoke obeys_calm_emit quiet_def)

lemma obeys_calm_consentDismissal: "obeys (calm quiet) (consentDismissal env)"
  unfolding consentDismissal_def
  by (intro obeys_try_catch obeys_block_list preorder_calm)
     (simp_all add: obeys_calm_invoke obeys_calm_emit quiet_def)

lemma obeys_calm_presentEntry: "obeys (calm quiet) (presentEntry env)"
  unfolding presentEntry_def
  by (intro obeys_try_catch obeys_block_list preorder_calm)
     (simp_all add: obeys_calm_invoke obeys_calm_emit quiet_def)

lemma obeys_calm_startup: "obeys (calm quiet) (startup env a)"
  unfolding startup_def
  by (rule obeys_block_list [OF preorder_calm])
     (simp add: obeys_calm_checkUrl obeys_calm_ensureOutDir obeys_calm_init
        obeys_calm_consentDismissal obeys_calm_presentEntry quiet_def)

lemma startup_calm: "startup env a s = (k, s') \<Longrightarrow> calm quiet s s'"
  using obeys_calm_startup [of env a] by (simp add: obeys_def) (metis snd_conv)

lemma script_after_startup:
  "script fuel env a s =
     (case startup env a s of
        (Normal, s1) \<Rightarrow>
          block [viewerReady env, fullscreenEnter env, firstCapture env a,
                 advanceLoop fuel env a, shutdown env] s1
      | r \<Rightarrow> r)"
proof -
  have "script fuel env a =
          block ([checkUrl a, ensureOutDir env a, init env a, consentDismissal env, presentEntry env]
                 @ [viewerReady env, fullscreenEnter env, firstCapture env a,
                    advanceLoop fuel env a, shutdown env])"
    by (simp add: script_def)
  then show ?thesis
    by (simp only: block_append startup_def)
qed

lemma viewerReady_cases:
  "viewerReady env s =
     (let w = WaitForSelector fullscr (Some 30000);
          l = ConsoleLog ''Waiting for the Prezi viewer to load...'';
          e = ConsoleError ''Timed out waiting for the fullscreen button. The viewer may not have loaded properly.''
      in if resolves env (trace s @ [l]) w then (Normal, s\<lparr>trace := trace s @ [l, w]\<rparr>)
         else if resolves env (trace s @ [l, w, e]) BrowserClose
              then (Exit 1, s\<lparr>trace := trace s @ [l, w, e, BrowserClose]\<rparr>)
              else (Throw (Rejection BrowserClose), s\<lparr>trace := trace s @ [l, w, e, BrowserClose]\<rparr>))"
  by (simp add: viewerReady_def stmt_defs Let_def)






section \<open>The first capture\<close>

lemma script_after_untilCapture:
  "script fuel env a s =
     (case untilCapture env a s of
        (Normal, s3) \<Rightarrow> block [firstCapture env a, advanceLoop fuel env a, shutdown env] s3
      | r \<Rightarrow> r)"
  by (simp add: script_after_startup untilCapture_def split: prod.splits completion.splits)





lemma string_of_nat_digit: "k < 10 \<Longrightarrow> string_of_nat k = [digit_char k]"
  by (simp add: string_of_nat.simps)




section \<open>The capture loop\<close>

lemma capture_paths_append [simp]: "capture_paths (xs @ ys) = capture_paths xs @ capture_paths ys"
  by (simp add: capture_paths_def List.map_filter_def)

lemma capture_paths_simps [simp]:
  "capture_paths [] = []"
  "capture_paths (SharpToFile buf w h f p # cs) = p # capture_paths cs"
  "written_path c = None \<Longrightarrow> capture_paths (c # cs) = capture_paths cs"
  by (simp_all add: capture_paths_def List.map_filter_def)

lemma slides_captured_Suc:
  assumes "slides_captured a fs m w s"
    and "capture_paths (trace s') = capture_paths (trace s) @ [outputPath (out a) m]"
    and "\<And>p. p \<noteq> outputPath (out a) m \<Longrightarrow> files s' p = files s p"
    and "\<And>p. files s p \<noteq> None \<Longrightarrow> files s' p \<noteq> None"
  shows "slides_captured a fs (Suc m) w s'"
    and "files s' (outputPath (out a) m) \<noteq> None \<Longrightarrow> w = m \<Longrightarrow> slides_captured a fs (Suc m) (Suc m) s'"
proof -
  have keep: "files s' (outputPath (out a) i) \<noteq> None" if "i < w" for i
    using assms(1) assms(4) [of "outputPath (out a) i"] that by (simp add: slides_captured_def)
  have paths: "capture_paths (trace s') = map (outputPath (out a)) [0..<Suc m]"
    using assms(1,2) by (simp add: slides_captured_def)
  have frame: "files s' p = fs p" if "p \<notin> outputPath (out a) ` {..<Suc m}" for p
    using assms(1) assms(3) [of p] that by (auto simp: slides_captured_def lessThan_Suc)
  show "slides_captured a fs (Suc m) w s'"
    using keep paths frame by (simp add: slides_captured_def)
  show "slides_captured a fs (Suc m) (Suc m) s'"
    if "files s' (outputPath (out a) m) \<noteq> None" "w = m"
    using keep paths frame that by (auto simp: slides_captured_def less_Suc_eq)
qed

lemma slides_captured_same:
  assumes "slides_captured a fs m w s"
    and "capture_paths (trace s') = capture_paths (trace s)" and "files s' = files s"
  shows "slides_captured a fs m w s'"
  using assms by (simp add: slides_captured_def)

lemma firstCapture_effect:
  assumes "firstCapture env a s = (c, s')" and "slides_captured a fs 0 0 s"
  shows "n_slide s' = 0"
    and "slides_captured a fs 0 0 s' \<or> slides_captured a fs 1 0 s'"
    and "c = Normal \<Longrightarrow> slides_captured a fs 1 1 s'"
    and "c \<noteq> OutOfFuel" and "c \<noteq> Break"
proof -
  let ?p = "outputPath (out a) 0"
  have eff: "n_slide s' = 0 \<and> c \<noteq> OutOfFuel \<and> c \<noteq> Break
      \<and> (\<forall>p. p \<noteq> ?p \<longrightarrow> files s' p = files s p)
      \<and> (\<forall>p. files s p \<noteq> None \<longrightarrow> files s' p \<noteq> None)
      \<and> (capture_paths (trace s') = capture_paths (trace s) @ [?p]
            \<and> (files s' ?p \<noteq> None \<or> c \<noteq> Normal)
          \<or> c \<noteq> Normal \<and> capture_paths (trace s') = capture_paths (trace s) \<and> files s' = files s)"
    using assms(1) by (auto simp: firstCapture_def stmt_defs Let_def split: if_splits)
  then show "n_slide s' = 0" "c \<noteq> OutOfFuel" "c \<noteq> Break" by simp_all
  show "slides_captured a fs 0 0 s' \<or> slides_captured a fs 1 0 s'"
    using eff slides_captured_Suc(1) [OF assms(2), of s'] slides_captured_same [OF assms(2), of s']
    by auto
  show "c = Normal \<Longrightarrow> slides_captured a fs 1 1 s'"
    using eff slides_captured_Suc(2) [OF assms(2), of s'] by auto
qed

lemma loopBody_effect:
  assumes "loopBody env a s = (c, s')"
    and "slides_captured a fs (Suc (n_slide s)) (Suc (n_slide s)) s"
  shows "n_slide s' = Suc (n_slide s)"
    and "slides_captured a fs (n_slide s') (n_slide s') s'
         \<or> slides_captured a fs (Suc (n_slide s')) (n_slide s') s'"
    and "c = Normal \<Longrightarrow> slides_captured a fs (Suc (n_slide s')) (Suc (n_slide s')) s'"
    and "c = Break \<Longrightarrow> slides_captured a fs (n_slide s') (n_slide s') s'
                      \<or> slides_captured a fs (Suc (n_slide s')) (Suc (n_slide s')) s'"
    and "c \<noteq> OutOfFuel"
proof -
  let ?p = "outputPath (out a) (Suc (n_slide s))"
  have eff: "n_slide s' = Suc (n_slide s) \<and> c \<noteq> OutOfFuel
      \<and> (\<forall>p. p \<noteq> ?p \<longrightarrow> files s' p = files s p)
      \<and> (\<forall>p. files s p \<noteq> None \<longrightarrow> files s' p \<noteq> None)
      \<and> (capture_paths (trace s') = capture_paths (trace s) @ [?p]
            \<and> (files s' ?p \<noteq> None \<or> c \<noteq> Normal \<and> c \<noteq> Break)
          \<or> c \<noteq> Normal \<and> capture_paths (trace s') = capture_paths (trace s) \<and> files s' = files s)"
    using assms(1) by (auto simp: loopBody_def stmt_defs Let_def split: if_splits)
  then show n: "n_slide s' = Suc (n_slide s)" and "c \<noteq> OutOfFuel" by simp_all
  show "slides_captured a fs (n_slide s') (n_slide s') s'
         \<or> slides_captured a fs (Suc (n_slide s')) (n_slide s') s'"
    using eff slides_captured_Suc(1) [OF assms(2), of s'] slides_captured_same [OF assms(2), of s']
    by auto
  show "c = Normal \<Longrightarrow> slides_captured a fs (Suc (n_slide s')) (Suc (n_slide s')) s'"
    using eff slides_captured_Suc(2) [OF assms(2), of s'] by auto
  show "c = Break \<Longrightarrow> slides_captured a fs (n_slide s') (n_slide s') s'
                      \<or> slides_captured a fs (Suc (n_slide s')) (Suc (n_slide s')) s'"
    using eff slides_captured_Suc(2) [OF assms(2), of s'] slides_captured_same [OF assms(2), of s']
    by auto
qed

lemma while_true_invariant:
  assumes step: "\<And>s c s'. I s \<Longrightarrow> body s = (c, s') \<Longrightarrow>
                   J s' \<and> (c = Normal \<longrightarrow> I s') \<and> (c = Break \<longrightarrow> Q s') \<and> c \<noteq> OutOfFuel"
    and weaken: "\<And>s. I s \<Longrightarrow> J s"
    and "I s"
  shows "J (snd (while_true fuel body s))
       \<and> (fst (while_true fuel body s) = OutOfFuel \<longrightarrow> I (snd (while_true fuel body s)))
       \<and> (fst (while_true fuel body s) = Normal \<longrightarrow> Q (snd (while_true fuel body s)))"
  using \<open>I s\<close>
proof (induction fuel arbitrary: s)
  case 0
  then show ?case by (simp add: weaken)
next
  case (Suc fuel)
  obtain c s' where b: "body s = (c, s')" by (cases "body s")
  note st = step [OF Suc.prems b]
  show ?case
  proof (cases c)
    case Normal
    with st have "I s'" by simp
    from Suc.IH [OF this] show ?thesis by (simp add: b Normal)
  qed (use st b in simp_all)
qed

lemma digits_roundtrip: "list_all (\<lambda>d. digit_value (digit_char d) = d) [0..<10]"
  by code_simp

lemma digit_value_digit_char: "d < 10 \<Longrightarrow> digit_value (digit_char d) = d"
  using digits_roundtrip by (simp add: list_all_iff)

lemma nat_of_string_of_nat: "nat_of_string (string_of_nat k) = k"
proof (induction k rule: string_of_nat.induct)
  case (1 k)
  show ?case
  proof (cases "k < 10")
    case True
    then show ?thesis
      by (simp add: string_of_nat.simps [of k] nat_of_string_def digit_value_digit_char)
  next
    case False
    with "1.IH" have "nat_of_string (string_of_nat (k div 10)) = k div 10" by simp
    with False show ?thesis
      by (simp add: string_of_nat.simps [of k] nat_of_string_def digit_value_digit_char)
  qed
qed

lemma string_of_nat_inj: "string_of_nat j = string_of_nat k \<Longrightarrow> j = k"
  by (metis nat_of_string_of_nat)

lemma outputPath_inj: "outputPath dir j = outputPath dir k \<Longrightarrow> j = k"
  by (simp add: outputPath_def string_of_nat_inj)


lemma calm_mono: "(\<And>c. P c \<Longrightarrow> Q c) \<Longrightarrow> calm P s s' \<Longrightarrow> calm Q s s'"
  by (auto simp: calm_def appends_def list_all_iff)

lemma calm_trans: "calm P s t \<Longrightarrow> calm P t u \<Longrightarrow> calm P s u"
  using preorder_calm [of P] unfolding preorder_on_states_def by blast

lemma viewerReady_calm: "calm no_capture s (snd (viewerReady env s))"
  by (simp add: viewerReady_cases Let_def calm_def appends_def no_capture_def)

lemma fullscreenEnter_calm: "calm quiet s (snd (fullscreenEnter env s))"
  by (simp add: fullscreenEnter_def stmt_defs calm_def appends_def quiet_def)

lemma shutdown_calm: "calm no_capture s (snd (shutdown env s))"
  by (simp add: shutdown_def stmt_defs calm_def appends_def no_capture_def)

lemma untilCapture_no_capture: "calm no_capture s (snd (untilCapture env a s))"
proof -
  have q: "quiet c \<Longrightarrow> no_capture c" for c
    by (simp add: quiet_def no_capture_def)
  obtain c1 s1 where s1: "startup env a s = (c1, s1)" by (cases "startup env a s")
  then have 1: "calm no_capture s s1"
    using calm_mono [of quiet no_capture, OF q startup_calm] by blast
  have 2: "calm no_capture s1 (snd (viewerReady env s1))"
    by (rule viewerReady_calm)
  have 3: "calm no_capture (snd (viewerReady env s1)) (snd (fullscreenEnter env (snd (viewerReady env s1))))"
    using calm_mono [of quiet no_capture, OF q fullscreenEnter_calm] by blast
  show ?thesis
    using 1 2 3 s1 calm_trans [OF 1 2] calm_trans [OF calm_trans [OF 1 2] 3]
    by (auto simp: untilCapture_def split: prod.splits completion.splits)
qed

lemma calm_no_capture_slides:
  assumes "calm no_capture s s'"
  shows "slides_captured a fs m w s' = slides_captured a fs m w s" and "n_slide s' = n_slide s"
proof -
  from assms obtain t where t: "trace s' = trace s @ t" "list_all no_capture t"
    and f: "files s' = files s" "n_slide s' = n_slide s"
    by (auto simp: calm_def appends_def)
  have "capture_paths t = []"
    using t(2) by (induction t) (simp_all add: no_capture_def)
  then show "slides_captured a fs m w s' = slides_captured a fs m w s"
    using t(1) f by (simp add: slides_captured_def)
  show "n_slide s' = n_slide s" by (rule f)
qed

lemma script_phases:
  "script fuel env a s =
     (case untilCapture env a s of
        (Normal, s3) \<Rightarrow>
          (case firstCapture env a s3 of
             (Normal, s4) \<Rightarrow>
               (case advanceLoop fuel env a s4 of
                  (Normal, s5) \<Rightarrow> shutdown env s5
                | r \<Rightarrow> r)
           | r \<Rightarrow> r)
      | r \<Rightarrow> r)"
  by (simp add: script_after_untilCapture split: prod.splits completion.splits)

lemma start_slides: "slides_captured a fs 0 0 (start fs)" "n_slide (start fs) = 0"
  by (simp_all add: slides_captured_def start_def)

lemma slides_captured_less: "slides_captured a fs m (Suc w) s \<Longrightarrow> slides_captured a fs m w s"
  by (simp add: slides_captured_def)

lemma advanceLoop_slides:
  assumes "at_loop_head a fs s"
  shows "anywhere a fs (snd (advanceLoop fuel env a s))
       \<and> (fst (advanceLoop fuel env a s) = OutOfFuel \<longrightarrow> at_loop_head a fs (snd (advanceLoop fuel env a s)))
       \<and> (fst (advanceLoop fuel env a s) = Normal \<longrightarrow> at_loop_exit a fs (snd (advanceLoop fuel env a s)))"
  unfolding advanceLoop_def
proof (rule while_true_invariant [where I = "at_loop_head a fs"])
  fix s c s'
  assume "at_loop_head a fs s" and b: "loopBody env a s = (c, s')"
  then have "slides_captured a fs (Suc (n_slide s)) (Suc (n_slide s)) s"
    by (simp add: at_loop_head_def)
  from loopBody_effect [OF b this]
  show "anywhere a fs s' \<and> (c = Normal \<longrightarrow> at_loop_head a fs s') \<and> (c = Break \<longrightarrow> at_loop_exit a fs s')
        \<and> c \<noteq> OutOfFuel"
    by (auto simp: anywhere_def at_loop_head_def at_loop_exit_def)
next
  fix s assume "at_loop_head a fs s"
  then show "anywhere a fs s"
    by (auto simp: anywhere_def at_loop_head_def dest: slides_captured_less)
qed (use assms in simp)

lemma run_slides:
  "anywhere a fs (snd (run fuel env a fs))
   \<and> (fst (run fuel env a fs) = Normal \<longrightarrow> at_loop_exit a fs (snd (run fuel env a fs)))"
proof -
  obtain c3 s3 where u: "untilCapture env a (start fs) = (c3, s3)"
    by (cases "untilCapture env a (start fs)")
  have "calm no_capture (start fs) s3"
    using untilCapture_no_capture [of "start fs" env a] u by simp
  from calm_no_capture_slides(1) [OF this, of a fs 0 0] calm_no_capture_slides(2) [OF this]
  have s3: "slides_captured a fs 0 0 s3" "n_slide s3 = 0"
    by (simp_all add: start_slides)
  show ?thesis
  proof (cases "c3 = Normal")
    case False
    then have "run fuel env a fs = (c3, s3)"
      by (cases c3) (simp_all add: run_def script_phases u)
    with s3 False show ?thesis by (simp add: anywhere_def)
  next
    case True
    obtain c4 s4 where f: "firstCapture env a s3 = (c4, s4)"
      by (cases "firstCapture env a s3")
    note fe = firstCapture_effect [OF f s3(1)]
    show ?thesis
    proof (cases "c4 = Normal")
      case False
      then have "run fuel env a fs = (c4, s4)"
        by (cases c4) (simp_all add: run_def script_phases u True f)
      with fe False show ?thesis by (auto simp: anywhere_def)
    next
      case c4: True
      with fe have i4: "at_loop_head a fs s4" by (simp add: at_loop_head_def)
      obtain c5 s5 where l: "advanceLoop fuel env a s4 = (c5, s5)"
        by (cases "advanceLoop fuel env a s4")
      from advanceLoop_slides [OF i4, of fuel env] l
      have j5: "anywhere a fs s5" "c5 = Normal \<longrightarrow> at_loop_exit a fs s5"
        by simp_all
      show ?thesis
      proof (cases "c5 = Normal")
        case False
        then have "run fuel env a fs = (c5, s5)"
          by (cases c5) (simp_all add: run_def script_phases u True f c4 l)
        with j5 False show ?thesis by auto
      next
        case c5: True
        have r: "run fuel env a fs = shutdown env s5"
          by (simp add: run_def script_phases u True f c4 l c5)
        have "calm no_capture s5 (snd (shutdown env s5))"
          by (rule shutdown_calm)
        from calm_no_capture_slides [OF this] j5 c5 show ?thesis
          by (auto simp: r anywhere_def at_loop_exit_def)
      qed
    qed
  qed
qed

lemma outputPath_img:
  "outputPath (JStr ''img'') 0 = ''img/prezi-0.png''"
  "outputPath (JStr ''img'') 1 = ''img/prezi-1.png''"
  "outputPath (JStr ''img'') 2 = ''img/prezi-2.png''"
  "outputPath (JStr ''img'') 3 = ''img/prezi-3.png''"
  "outputPath (JStr ''img'') 4 = ''img/prezi-4.png''"
  "outputPath (JStr ''img'') 5 = ''img/prezi-5.png''"
  by (simp_all add: outputPath_def string_of_nat_digit digit_char_def)

lemma only_url_constants:
  "prezi only_url = JStr ''https://prezi.com/view/abc/''" "out only_url = JStr ''img''"
  "width only_url = JNum 595" "height only_url = JNum 842"
  by (simp_all add: only_url_def no_args_def prezi_def out_def width_def height_def js_or_def)

lemma deck5_reaches_loop:
  "\<exists>s. block [untilCapture (deck 5) only_url, firstCapture (deck 5) only_url] (start Map.empty) = (Normal, s)
       \<and> n_slide s = 0 \<and> count_list (trace s) (Click nxt) = 1
       \<and> capture_paths (trace s) = [''img/prezi-0.png'']"
  by (simp add: untilCapture_def startup_def start_def phase_defs stmt_defs deck_def
      only_url_constants selectors_distinct Let_def outputPath_img)

lemma deck_loopBody:
  assumes "count_list (trace s) (Click nxt) = Suc (n_slide s)"
  shows "loopBody (deck k) a s =
     (if k \<le> Suc (n_slide s)
      then (Break, s\<lparr>n_slide := Suc (n_slide s),
                     trace := trace s @ [SetTimeout 1800, Query breaker,
                                         ConsoleLog ''Reached the end of the presentation.'']\<rparr>)
      else (Normal, s\<lparr>n_slide := Suc (n_slide s),
                      trace := trace s @ [SetTimeout 1800, Query breaker, Screenshot,
                        SharpToFile \<lparr>px_width = 595, px_height = 842, px_data = []\<rparr> 1280 720 Cover
                          (outputPath (out a) (Suc (n_slide s))),
                        MouseMove 100 100, Query nxt, Click nxt],
                      files := (files s)(outputPath (out a) (Suc (n_slide s)) \<mapsto>
                        \<lparr>px_width = 1280, px_height = 720, px_data = []\<rparr>)\<rparr>))"
  using assms by (simp add: loopBody_def stmt_defs deck_def selectors_distinct Let_def)

lemma fuel_free_block: "list_all fuel_free cs \<Longrightarrow> fuel_free (block cs)"
  unfolding fuel_free_def
proof (induction cs)
  case Nil
  then show ?case by simp
next
  case (Cons c cs)
  show ?case
  proof
    fix s
    obtain k s' where c: "c s = (k, s')" by (cases "c s")
    from Cons.prems have "fst (c s) \<noteq> OutOfFuel" by simp
    with c have "k \<noteq> OutOfFuel" by simp
    with Cons c show "fst (block (c # cs) s) \<noteq> OutOfFuel"
      by (cases k) simp_all
  qed
qed

lemma fuel_free_try_catch:
  assumes "fuel_free body" and "\<And>e. fuel_free (handler e)"
  shows "fuel_free (try_catch body handler)"
  unfolding fuel_free_def
proof
  fix s
  obtain k s' where b: "body s = (k, s')" by (cases "body s")
  with assms(1) have "k \<noteq> OutOfFuel" by (metis fst_conv fuel_free_def)
  with assms(2) b show "fst (try_catch body handler s) \<noteq> OutOfFuel"
    by (cases k) (simp_all add: try_catch_def fuel_free_def)
qed

lemma fuel_free_basic:
  "fuel_free (invoke env c)" "fuel_free (emit c)" "fuel_free skip" "fuel_free break"
  "fuel_free (throw e)" "fuel_free (process_exit k)" "fuel_free (checkUrl a)"
  "fuel_free (ensureOutDir env a)"
  "fuel_free (\<lambda>s. captureCroppedScreenshot env (f s) s)"
  "fuel_free (\<lambda>s. (Normal, g s))"
  by (simp_all add: fuel_free_def stmt_defs checkUrl_def ensureOutDir_def Let_def)

lemma fuel_free_if_found: "fuel_free yes \<Longrightarrow> fuel_free no \<Longrightarrow> fuel_free (if_found env c yes no)"
  by (simp add: fuel_free_def if_found_def Let_def)

lemma fuel_free_phases:
  "fuel_free (untilCapture env a)" "fuel_free (firstCapture env a)" "fuel_free (loopBody env a)"
  "fuel_free (shutdown env)"
  unfolding untilCapture_def startup_def init_def consentDismissal_def presentEntry_def
    viewerReady_def fullscreenEnter_def firstCapture_def loopBody_def shutdown_def
  by (simp_all add: fuel_free_block fuel_free_try_catch fuel_free_basic fuel_free_if_found)

lemma while_true_add:
  assumes "fuel_free body"
  shows "while_true (j + m) body s =
           (case while_true j body s of (OutOfFuel, s') \<Rightarrow> while_true m body s' | r \<Rightarrow> r)"
proof (induction j arbitrary: s)
  case 0
  then show ?case by simp
next
  case (Suc j)
  obtain k s' where b: "body s = (k, s')" by (cases "body s")
  with assms have "k \<noteq> OutOfFuel" by (metis fst_conv fuel_free_def)
  with Suc b show ?case by (cases k) simp_all
qed

lemma loopBody_counts: "n_slide (snd (loopBody env a s)) = Suc (n_slide s)"
  by (simp add: loopBody_def stmt_defs Let_def)

lemma advanceLoop_counts:
  "advanceLoop j env a s = (OutOfFuel, s') \<Longrightarrow> n_slide s' = n_slide s + j"
  unfolding advanceLoop_def
proof (induction j arbitrary: s)
  case 0
  then show ?case by simp
next
  case (Suc j)
  obtain k s1 where b: "loopBody env a s = (k, s1)" by (cases "loopBody env a s")
  have n: "n_slide s1 = Suc (n_slide s)"
    using loopBody_counts [of env a s] b by simp
  have "k \<noteq> OutOfFuel"
    using fuel_free_phases(3) [of env a] b by (metis fst_conv fuel_free_def)
  with Suc.prems b have "k = Normal" "while_true j (loopBody env a) s1 = (OutOfFuel, s')"
    by (cases k; simp)+
  with Suc.IH [of s1] n show ?case by simp
qed

lemma loopBody_split:
  "loopBody env a s =
     (case iterationCapture env a s of
        (Normal, s1) \<Rightarrow>
          block [if_found env (Query nxt) skip
                   (block [emit (ConsoleLog ''No 'next' button found-likely at the end.''), break]),
                 invoke env (Click nxt)] s1
      | r \<Rightarrow> r)"
proof -
  have "loopBody env a = block
     ([(\<lambda>s. (Normal, s\<lparr>n_slide := Suc (n_slide s)\<rparr>)),
      emit (SetTimeout 1800),
      if_found env (Query breaker)
        (block [emit (ConsoleLog ''Reached the end of the presentation.''), break])
        skip,
      (\<lambda>s. captureCroppedScreenshot env (outputPath (out a) (n_slide s)) s),
      invoke env (MouseMove 100 100)] @
      [if_found env (Query nxt) skip
          (block [emit (ConsoleLog ''No 'next' button found-likely at the end.''), break]),
       invoke env (Click nxt)])"
    by (simp add: loopBody_def)
  then show ?thesis
    by (simp only: block_append iterationCapture_def)
qed

section \<open>Well-behaved decks\<close>

lemma deck_reaches_loop:
  assumes "truthy (arg_url a)"
  shows "\<exists>s3 s4. untilCapture (deck k) a (start fs) = (Normal, s3)
       \<and> firstCapture (deck k) a s3 = (Normal, s4)
       \<and> n_slide s4 = 0 \<and> count_list (trace s4) (Click nxt) = 1
       \<and> count_list (trace s4) BrowserClose = 0
       \<and> capture_paths (trace s4) = [outputPath (out a) 0]"
  using assms
  by (simp add: untilCapture_def startup_def start_def phase_defs stmt_defs deck_def
      prezi_def js_or_def selectors_distinct Let_def)

lemma deck_advanceLoop:
  assumes "count_list (trace s) (Click nxt) = Suc (n_slide s)" "n_slide s < k" "k \<le> n_slide s + fuel"
  shows "fst (advanceLoop fuel (deck k) a s) = Normal
       \<and> n_slide (snd (advanceLoop fuel (deck k) a s)) = k
       \<and> capture_paths (trace (snd (advanceLoop fuel (deck k) a s))) =
           capture_paths (trace s) @ map (outputPath (out a)) [Suc (n_slide s)..<k]
       \<and> count_list (trace (snd (advanceLoop fuel (deck k) a s))) BrowserClose =
           count_list (trace s) BrowserClose"
  using assms unfolding advanceLoop_def
proof (induction fuel arbitrary: s)
  case 0
  then show ?case by simp
next
  case (Suc fuel)
  note body = deck_loopBody [OF Suc.prems(1), of k a]
  show ?case
  proof (cases "k \<le> Suc (n_slide s)")
    case True
    with Suc.prems(2) have e: "Suc (n_slide s) = k" by simp
    have b: "loopBody (deck k) a s =
        (Break, s\<lparr>n_slide := Suc (n_slide s),
                   trace := trace s @ [SetTimeout 1800, Query breaker,
                                       ConsoleLog ''Reached the end of the presentation.'']\<rparr>)"
      using True by (simp add: body)
    show ?thesis by (simp add: b e)
  next
    case False
    let ?s1 = "s\<lparr>n_slide := Suc (n_slide s),
                 trace := trace s @ [SetTimeout 1800, Query breaker, Screenshot,
                   SharpToFile \<lparr>px_width = 595, px_height = 842, px_data = []\<rparr> 1280 720 Cover
                     (outputPath (out a) (Suc (n_slide s))),
                   MouseMove 100 100, Query nxt, Click nxt],
                 files := (files s)(outputPath (out a) (Suc (n_slide s)) \<mapsto>
                   \<lparr>px_width = 1280, px_height = 720, px_data = []\<rparr>)\<rparr>"
    have b: "loopBody (deck k) a s = (Normal, ?s1)"
      using False by (simp add: body)
    have 1: "count_list (trace ?s1) (Click nxt) = Suc (n_slide ?s1)"
      using Suc.prems(1) by simp
    have 2: "n_slide ?s1 < k" "k \<le> n_slide ?s1 + fuel"
      using False Suc.prems(3) by simp_all
    have u: "[Suc (n_slide s)..<k] = Suc (n_slide s) # [Suc (Suc (n_slide s))..<k]"
      using False by (simp add: upt_conv_Cons)
    from Suc.IH [OF 1 2] show ?thesis
      by (simp add: b u)
  qed
qed

lemma shutdown_deck:
  "shutdown (deck k) s =
     (Normal, s\<lparr>trace := trace s @ [BrowserClose, ConsoleLog ''Screenshots saved. Browser closed.'']\<rparr>)"
  by (simp add: shutdown_def stmt_defs deck_def)

lemma slides_captured_length:
  "slides_captured a fs m w s \<Longrightarrow> length (capture_paths (trace s)) = m"
  by (simp add: slides_captured_def)

lemma deck_run:
  assumes "truthy (arg_url a)" "0 < k" "k \<le> fuel"
  shows "fst (run fuel (deck k) a fs) = Normal"
    and "n_slide (snd (run fuel (deck k) a fs)) = k"
    and "capture_paths (trace (snd (run fuel (deck k) a fs))) = map (outputPath (out a)) [0..<k]"
    and "count_list (trace (snd (run fuel (deck k) a fs))) BrowserClose = 1"
    and "dom (files (snd (run fuel (deck k) a fs))) = dom fs \<union> outputPath (out a) ` {..<k}"
proof -
  from deck_reaches_loop [OF assms(1), of k fs] obtain s3 s4
    where u: "untilCapture (deck k) a (start fs) = (Normal, s3)"
      and f: "firstCapture (deck k) a s3 = (Normal, s4)"
      and s4: "n_slide s4 = 0" "count_list (trace s4) (Click nxt) = 1"
        "count_list (trace s4) BrowserClose = 0" "capture_paths (trace s4) = [outputPath (out a) 0]"
    by blast
  have pre: "count_list (trace s4) (Click nxt) = Suc (n_slide s4)" "n_slide s4 < k"
    "k \<le> n_slide s4 + fuel"
    using s4 assms by simp_all
  obtain c5 s5 where l: "advanceLoop fuel (deck k) a s4 = (c5, s5)"
    by (cases "advanceLoop fuel (deck k) a s4")
  from deck_advanceLoop [OF pre, of a] l
  have s5: "c5 = Normal" "n_slide s5 = k"
    "capture_paths (trace s5) = outputPath (out a) 0 # map (outputPath (out a)) [Suc 0..<k]"
    "count_list (trace s5) BrowserClose = 0"
    using s4 by simp_all
  have r: "run fuel (deck k) a fs = shutdown (deck k) s5"
    by (simp add: run_def script_phases u f l s5(1))
  have "[0..<k] = 0 # [Suc 0..<k]"
    using assms(2) by (simp add: upt_conv_Cons)
  then have paths: "capture_paths (trace s5) = map (outputPath (out a)) [0..<k]"
    using s5(3) by simp
  show "fst (run fuel (deck k) a fs) = Normal" "n_slide (snd (run fuel (deck k) a fs)) = k"
    "capture_paths (trace (snd (run fuel (deck k) a fs))) = map (outputPath (out a)) [0..<k]"
    "count_list (trace (snd (run fuel (deck k) a fs))) BrowserClose = 1"
    using s5 paths by (simp_all add: r shutdown_deck)
  then have "at_loop_exit a fs (snd (run fuel (deck k) a fs))"
    using run_slides [of a fs fuel "deck k"] by simp
  moreover have "\<not> slides_captured a fs (Suc k) (Suc k) (snd (run fuel (deck k) a fs))"
    using slides_captured_length [of a fs "Suc k" "Suc k" "snd (run fuel (deck k) a fs)"]
      \<open>capture_paths (trace (snd (run fuel (deck k) a fs))) = map (outputPath (out a)) [0..<k]\<close>
    by auto
  ultimately have "slides_captured a fs k k (snd (run fuel (deck k) a fs))"
    using \<open>n_slide (snd (run fuel (deck k) a fs)) = k\<close> by (auto simp: at_loop_exit_def)
  then have frame: "\<And>p. p \<notin> outputPath (out a) ` {..<k} \<Longrightarrow> files (snd (run fuel (deck k) a fs)) p = fs p"
    and written: "\<And>i. i < k \<Longrightarrow> files (snd (run fuel (deck k) a fs)) (outputPath (out a) i) \<noteq> None"
    by (simp_all add: slides_captured_def)
  show "dom (files (snd (run fuel (deck k) a fs))) = dom fs \<union> outputPath (out a) ` {..<k}"
  proof (rule set_eqI)
    fix p
    show "p \<in> dom (files (snd (run fuel (deck k) a fs))) \<longleftrightarrow> p \<in> dom fs \<union> outputPath (out a) ` {..<k}"
    proof (cases "p \<in> outputPath (out a) ` {..<k}")
      case True
      then obtain i where "i < k" "p = outputPath (out a) i" by auto
      with written [of i] True show ?thesis by (simp add: dom_def)
    next
      case False
      with frame [of p] show ?thesis by (simp add: dom_def)
    qed
  qed
qed

section \<open>The slides of a run\<close>


lemma only_url_truthy: "truthy (arg_url only_url)"
  by (simp add: only_url_def no_args_def)


section \<open>The two ends of the loop\<close>

lemma untilIteration_reached:
  assumes "untilIteration j env a (start fs) = (OutOfFuel, s)"
  shows "\<exists>s3 s4. untilCapture env a (start fs) = (Normal, s3)
           \<and> firstCapture env a s3 = (Normal, s4)
           \<and> advanceLoop j env a s4 = (OutOfFuel, s)"
    and "n_slide s = j" and "at_loop_head a fs s"
proof -
  obtain c3 s3 where u: "untilCapture env a (start fs) = (c3, s3)"
    by (cases "untilCapture env a (start fs)")
  have "c3 \<noteq> OutOfFuel"
    using fuel_free_phases(1) [of env a] u by (metis fst_conv fuel_free_def)
  with assms u have c3: "c3 = Normal"
    by (cases c3) (simp_all add: untilIteration_def)
  obtain c4 s4 where f: "firstCapture env a s3 = (c4, s4)"
    by (cases "firstCapture env a s3")
  have "c4 \<noteq> OutOfFuel"
    using fuel_free_phases(2) [of env a] f by (metis fst_conv fuel_free_def)
  with assms u c3 f have c4: "c4 = Normal"
    by (cases c4) (simp_all add: untilIteration_def)
  have l: "advanceLoop j env a s4 = (OutOfFuel, s)"
    using assms u c3 f c4
    by (cases "advanceLoop j env a s4") (auto simp: untilIteration_def split: completion.splits)
  show "\<exists>s3 s4. untilCapture env a (start fs) = (Normal, s3)
           \<and> firstCapture env a s3 = (Normal, s4)
           \<and> advanceLoop j env a s4 = (OutOfFuel, s)"
    using u c3 f c4 l by simp
  have "calm no_capture (start fs) s3"
    using untilCapture_no_capture [of "start fs" env a] u by simp
  from calm_no_capture_slides(1) [OF this, of a fs 0 0]
  have "slides_captured a fs 0 0 s3"
    by (simp add: start_slides)
  note fe = firstCapture_effect [OF f this]
  from fe(1) advanceLoop_counts [OF l] show "n_slide s = j" by simp
  from fe(3) c4 fe(1) have "at_loop_head a fs s4"
    by (simp add: at_loop_head_def)
  from advanceLoop_slides [OF this, of j env] l show "at_loop_head a fs s"
    by simp
qed

lemma run_from_iteration:
  assumes "untilIteration j env a (start fs) = (OutOfFuel, s)"
    and "advanceLoop (Suc m) env a s = (Normal, s')"
  shows "run (j + Suc m) env a fs = shutdown env s'"
proof -
  from untilIteration_reached(1) [OF assms(1)] obtain s3 s4
    where u: "untilCapture env a (start fs) = (Normal, s3)"
      and f: "firstCapture env a s3 = (Normal, s4)"
      and l: "advanceLoop j env a s4 = (OutOfFuel, s)"
    by blast
  have "advanceLoop (j + Suc m) env a s4 = (Normal, s')"
    using while_true_add [OF fuel_free_phases(3), of j "Suc m" env a s4] l assms(2)
    by (simp add: advanceLoop_def)
  then show ?thesis
    by (simp add: run_def script_phases u f)
qed

lemma shutdown_effect:
  "capture_paths (trace (snd (shutdown env s))) = capture_paths (trace s)"
  "files (snd (shutdown env s)) = files s"
  "n_slide (snd (shutdown env s)) = n_slide s"
  by (simp_all add: shutdown_def stmt_defs)

lemma at_loop_head_facts:
  assumes "at_loop_head a fs s"
  shows "capture_paths (trace s) = map (outputPath (out a)) [0..<Suc (n_slide s)]"
    and "files s (outputPath (out a) (Suc (n_slide s))) = fs (outputPath (out a) (Suc (n_slide s)))"
    and "\<And>i. i \<le> n_slide s \<Longrightarrow> files s (outputPath (out a) i) \<noteq> None"
proof -
  have sc: "slides_captured a fs (Suc (n_slide s)) (Suc (n_slide s)) s"
    using assms by (simp add: at_loop_head_def)
  then show "capture_paths (trace s) = map (outputPath (out a)) [0..<Suc (n_slide s)]"
    by (simp add: slides_captured_def)
  have "outputPath (out a) (Suc (n_slide s)) \<notin> outputPath (out a) ` {..<Suc (n_slide s)}"
    using outputPath_inj [of "out a" "Suc (n_slide s)"] by auto
  with sc show "files s (outputPath (out a) (Suc (n_slide s))) = fs (outputPath (out a) (Suc (n_slide s)))"
    by (simp add: slides_captured_def)
  show "\<And>i. i \<le> n_slide s \<Longrightarrow> files s (outputPath (out a) i) \<noteq> None"
    using sc by (simp add: slides_captured_def)
qed

lemma outputPath_img_list:
  "map (outputPath (JStr ''img'')) [0..<5] =
     [''img/prezi-0.png'', ''img/prezi-1.png'', ''img/prezi-2.png'', ''img/prezi-3.png'',
      ''img/prezi-4.png'']"
proof -
  have "[0..<5] = [0, 1, 2, 3, 4::nat]"
    by (simp add: upt_rec)
  then show ?thesis
    by (simp only: list.map outputPath_img)
qed

lemma deck5_scenario:
  "fst (run 6 (deck 5) only_url Map.empty) = Normal"
  "n_slide (snd (run 6 (deck 5) only_url Map.empty)) = 5"
  "capture_paths (trace (snd (run 6 (deck 5) only_url Map.empty))) =
     [''img/prezi-0.png'', ''img/prezi-1.png'', ''img/prezi-2.png'', ''img/prezi-3.png'',
      ''img/prezi-4.png'']"
  "dom (files (snd (run 6 (deck 5) only_url Map.empty))) =
     {''img/prezi-0.png'', ''img/prezi-1.png'', ''img/prezi-2.png'', ''img/prezi-3.png'',
      ''img/prezi-4.png''}"
proof -
  note d = deck_run [OF only_url_truthy, of 5 6 Map.empty]
  show "fst (run 6 (deck 5) only_url Map.empty) = Normal"
    and "n_slide (snd (run 6 (deck 5) only_url Map.empty)) = 5"
    using d(1,2) by simp_all
  show "capture_paths (trace (snd (run 6 (deck 5) only_url Map.empty))) =
     [''img/prezi-0.png'', ''img/prezi-1.png'', ''img/prezi-2.png'', ''img/prezi-3.png'',
      ''img/prezi-4.png'']"
    using d(3) by (simp only: only_url_constants outputPath_img_list)
  have "outputPath (JStr ''img'') ` {..<5} = set (map (outputPath (JStr ''img'')) [0..<5])"
    by (simp only: set_map set_upt lessThan_atLeast0)
  also have "\<dots> = {''img/prezi-0.png'', ''img/prezi-1.png'', ''img/prezi-2.png'',
      ''img/prezi-3.png'', ''img/prezi-4.png''}"
    by (simp only: outputPath_img_list list.set)
  finally have "outputPath (JStr ''img'') ` {..<5} = {''img/prezi-0.png'', ''img/prezi-1.png'',
      ''img/prezi-2.png'', ''img/prezi-3.png'', ''img/prezi-4.png''}" .
  with d(5) show "dom (files (snd (run 6 (deck 5) only_url Map.empty))) =
     {''img/prezi-0.png'', ''img/prezi-1.png'', ''img/prezi-2.png'', ''img/prezi-3.png'',
      ''img/prezi-4.png''}"
    by (simp only: only_url_constants dom_empty Un_empty_left)
qed

text \<open>
  Claim C2. The end-of-deck overlay is tested before the capture. For a session that has
  completed \<open>j\<close> iterations of the loop, so that the next index is \<open>j + 1\<close>: when the
  overlay is found there, the loop ends, the run goes on to close the browser, the slides
  captured are those of the indices \<open>0, \<dots>, j\<close>, and the file of index \<open>j + 1\<close> is
  not written. On the deck of five slides, whose overlay appears after slide 4, the run
  ends normally with the counter at 5 and has written exactly \<^verbatim>\<open>prezi-0.png\<close> to
  \<^verbatim>\<open>prezi-4.png\<close>.
\<close>

theorem end_marker_stops_before_capture:
  assumes "untilIteration j env a (start fs) = (OutOfFuel, s)"
    and "resolves env (trace s @ [SetTimeout 1800]) (Query breaker)"
    and "found env (trace s @ [SetTimeout 1800]) (Query breaker)"
    and "j < fuel"
  shows "n_slide s = j
       \<and> run fuel env a fs =
           shutdown env (s\<lparr>n_slide := Suc j,
                           trace := trace s @ [SetTimeout 1800, Query breaker,
                             ConsoleLog ''Reached the end of the presentation.'']\<rparr>)
       \<and> capture_paths (trace (snd (run fuel env a fs))) = map (outputPath (out a)) [0..<Suc j]
       \<and> files (snd (run fuel env a fs)) = files s
       \<and> files s (outputPath (out a) (Suc j)) = fs (outputPath (out a) (Suc j))
       \<and> fst (run 6 (deck 5) only_url Map.empty) = Normal
       \<and> capture_paths (trace (snd (run 6 (deck 5) only_url Map.empty))) =
           [''img/prezi-0.png'', ''img/prezi-1.png'', ''img/prezi-2.png'', ''img/prezi-3.png'',
            ''img/prezi-4.png'']
       \<and> dom (files (snd (run 6 (deck 5) only_url Map.empty))) =
           {''img/prezi-0.png'', ''img/prezi-1.png'', ''img/prezi-2.png'', ''img/prezi-3.png'',
            ''img/prezi-4.png''}
       \<and> n_slide (snd (run 6 (deck 5) only_url Map.empty)) = 5"
proof -
  let ?s' = "s\<lparr>n_slide := Suc j,
                trace := trace s @ [SetTimeout 1800, Query breaker,
                  ConsoleLog ''Reached the end of the presentation.'']\<rparr>"
  note reached = untilIteration_reached(2,3) [OF assms(1)]
  note head = at_loop_head_facts [OF reached(2)]
  define m where "m = fuel - Suc j"
  have fuel: "fuel = j + Suc m"
    using assms(4) by (simp add: m_def)
  have "loopBody env a s = (Break, ?s')"
    using assms(2,3) reached(1) by (simp add: loopBody_def stmt_defs Let_def)
  then have "advanceLoop (Suc m) env a s = (Normal, ?s')"
    by (simp add: advanceLoop_def)
  from run_from_iteration [OF assms(1) this]
  have r: "run fuel env a fs = shutdown env ?s'"
    by (simp add: fuel)
  have g: "capture_paths (trace (snd (run fuel env a fs))) = map (outputPath (out a)) [0..<Suc j]"
    "files (snd (run fuel env a fs)) = files s"
    "files s (outputPath (out a) (Suc j)) = fs (outputPath (out a) (Suc j))"
    using reached(1) head(1,2) by (simp_all add: r shutdown_effect)
  show ?thesis
    by (insert reached(1) r g deck5_scenario, intro conjI; assumption)
qed

lemma outputPath_img_Suc_0: "outputPath (JStr ''img'') (Suc 0) = ''img/prezi-1.png''"
  using outputPath_img(2) by simp

theorem end_marker_stops_before_capture_witness:
  "fst (untilIteration 0 (deck (Suc 0)) only_url (start Map.empty)) = OutOfFuel
   \<and> capture_paths (trace (snd (run (Suc 0) (deck (Suc 0)) only_url Map.empty))) = [''img/prezi-0.png'']
   \<and> files (snd (run (Suc 0) (deck (Suc 0)) only_url Map.empty)) ''img/prezi-1.png'' = None"
proof -
  from deck_reaches_loop [OF only_url_truthy, of "Suc 0" Map.empty] obtain s3 s4
    where u: "untilCapture (deck (Suc 0)) only_url (start Map.empty) = (Normal, s3)"
      and f: "firstCapture (deck (Suc 0)) only_url s3 = (Normal, s4)"
      and c: "count_list (trace s4) (Click nxt) = 1"
    by blast
  have reach: "untilIteration 0 (deck (Suc 0)) only_url (start Map.empty) = (OutOfFuel, s4)"
    by (simp add: untilIteration_def u f advanceLoop_def)
  have answers: "resolves (deck (Suc 0)) (trace s4 @ [SetTimeout 1800]) (Query breaker)"
    by (simp add: deck_def)
  have marker: "found (deck (Suc 0)) (trace s4 @ [SetTimeout 1800]) (Query breaker)"
    using c by (simp add: deck_def)
  note t = end_marker_stops_before_capture [OF reach answers marker zero_less_Suc [of 0]]
  note paths = t [THEN conjunct2, THEN conjunct2, THEN conjunct1]
  note same = t [THEN conjunct2, THEN conjunct2, THEN conjunct2, THEN conjunct1]
  note untouched = t [THEN conjunct2, THEN conjunct2, THEN conjunct2, THEN conjunct2, THEN conjunct1]
  have "fst (untilIteration 0 (deck (Suc 0)) only_url (start Map.empty)) = OutOfFuel"
    by (simp add: reach)
  moreover have "capture_paths (trace (snd (run (Suc 0) (deck (Suc 0)) only_url Map.empty))) =
      [''img/prezi-0.png'']"
    using paths by (simp add: only_url_constants outputPath_img)
  moreover have "files (snd (run (Suc 0) (deck (Suc 0)) only_url Map.empty)) ''img/prezi-1.png'' = None"
    using untouched by (simp add: same only_url_constants outputPath_img_Suc_0)
  ultimately show ?thesis by (intro conjI)
qed

lemma iterationCapture_effect:
  assumes "iterationCapture env a s = (Normal, s1)"
  shows "n_slide s1 = Suc (n_slide s)"
    and "capture_paths (trace s1) = capture_paths (trace s) @ [outputPath (out a) (Suc (n_slide s))]"
    and "files s1 = (files s)(outputPath (out a) (Suc (n_slide s)) \<mapsto>
           resized env (shot env (trace s @ [SetTimeout 1800, Query breaker])) 1280 720 Cover)"
  using assms by (auto simp: iterationCapture_def stmt_defs Let_def split: if_splits)

text \<open>
  Claim C3. For a session that has completed \<open>j\<close> iterations of the loop, so that the
  next index is \<open>k = j + 1\<close>, at least 1: when slide \<open>k\<close> is captured and the next
  control is then not found, the loop ends and the run goes on to close the browser. The
  slides captured are those of the indices \<open>0, \<dots>, k\<close>, which makes \<open>k + 1\<close> of them;
  the file of slide \<open>k\<close> is kept, all of them exist, and nothing is captured after it.
\<close>

theorem next_absent_stops_after_capture:
  assumes "untilIteration j env a (start fs) = (OutOfFuel, s)"
    and "iterationCapture env a s = (Normal, s1)"
    and "resolves env (trace s1) (Query nxt)"
    and "\<not> found env (trace s1) (Query nxt)"
    and "j < fuel"
  shows "n_slide s1 = Suc j
       \<and> run fuel env a fs =
           shutdown env (s1\<lparr>trace := trace s1 @ [Query nxt,
             ConsoleLog ''No 'next' button found-likely at the end.'']\<rparr>)
       \<and> capture_paths (trace (snd (run fuel env a fs))) = map (outputPath (out a)) [0..<Suc (Suc j)]
       \<and> length (capture_paths (trace (snd (run fuel env a fs)))) = Suc j + 1
       \<and> files (snd (run fuel env a fs)) = files s1
       \<and> files s1 (outputPath (out a) (Suc j)) =
           Some (resized env (shot env (trace s @ [SetTimeout 1800, Query breaker])) 1280 720 Cover)
       \<and> (\<forall>i\<le>Suc j. files (snd (run fuel env a fs)) (outputPath (out a) i) \<noteq> None)"
proof -
  let ?s' = "s1\<lparr>trace := trace s1 @ [Query nxt,
               ConsoleLog ''No 'next' button found-likely at the end.'']\<rparr>"
  note reached = untilIteration_reached(2,3) [OF assms(1)]
  note head = at_loop_head_facts [OF reached(2)]
  note eff = iterationCapture_effect [OF assms(2)]
  define m where "m = fuel - Suc j"
  have fuel: "fuel = j + Suc m"
    using assms(5) by (simp add: m_def)
  have "loopBody env a s = (Break, ?s')"
    using assms(3,4) by (simp add: loopBody_split assms(2) stmt_defs Let_def)
  then have "advanceLoop (Suc m) env a s = (Normal, ?s')"
    by (simp add: advanceLoop_def)
  from run_from_iteration [OF assms(1) this]
  have r: "run fuel env a fs = shutdown env ?s'"
    by (simp add: fuel)
  have n: "n_slide s1 = Suc j"
    using eff(1) reached(1) by simp
  have p: "capture_paths (trace (snd (run fuel env a fs))) = map (outputPath (out a)) [0..<Suc (Suc j)]"
    using eff(2) head(1) reached(1) by (simp add: r shutdown_effect)
  then have l: "length (capture_paths (trace (snd (run fuel env a fs)))) = Suc j + 1"
    by simp
  have f: "files (snd (run fuel env a fs)) = files s1"
    by (simp add: r shutdown_effect)
  have k: "files s1 (outputPath (out a) (Suc j)) =
           Some (resized env (shot env (trace s @ [SetTimeout 1800, Query breaker])) 1280 720 Cover)"
    using eff(3) reached(1) by simp
  have w: "\<forall>i\<le>Suc j. files (snd (run fuel env a fs)) (outputPath (out a) i) \<noteq> None"
  proof (intro allI impI)
    fix i assume "i \<le> Suc j"
    then consider "i = Suc j" | "i \<le> n_slide s"
      using reached(1) by linarith
    then show "files (snd (run fuel env a fs)) (outputPath (out a) i) \<noteq> None"
    proof cases
      case 1
      with k f show ?thesis by simp
    next
      case 2
      from head(3) [OF 2] show ?thesis
        using eff(3) by (simp add: f)
    qed
  qed
  show ?thesis
    by (insert n r p l f k w, intro conjI; assumption)
qed

lemma no_marker_answers:
  "resolves no_marker h c" "\<not> found no_marker h c"
  by (simp_all add: no_marker_def deck_def)

theorem next_absent_stops_after_capture_witness:
  "fst (untilIteration 0 no_marker only_url (start Map.empty)) = OutOfFuel
   \<and> fst (run (Suc 0) no_marker only_url Map.empty) = Normal
   \<and> capture_paths (trace (snd (run (Suc 0) no_marker only_url Map.empty))) =
       [''img/prezi-0.png'', ''img/prezi-1.png'']
   \<and> files (snd (run (Suc 0) no_marker only_url Map.empty)) ''img/prezi-1.png'' \<noteq> None"
proof -
  let ?s = "snd (untilIteration 0 no_marker only_url (start Map.empty))"
  let ?s1 = "snd (iterationCapture no_marker only_url ?s)"
  have stopped: "fst (untilIteration 0 no_marker only_url (start Map.empty)) = OutOfFuel"
    by (simp add: untilIteration_def untilCapture_def startup_def start_def phase_defs stmt_defs
        no_marker_def deck_def only_url_constants Let_def)
  then have reach: "untilIteration 0 no_marker only_url (start Map.empty) = (OutOfFuel, ?s)"
    by (simp add: prod_eq_iff)
  have "fst (iterationCapture no_marker only_url ?s) = Normal"
    by (simp add: iterationCapture_def stmt_defs no_marker_answers Let_def)
  then have cap: "iterationCapture no_marker only_url ?s = (Normal, ?s1)"
    by (simp add: prod_eq_iff)
  note t = next_absent_stops_after_capture [OF reach cap no_marker_answers zero_less_Suc [of 0]]
  note ends = t [THEN conjunct2, THEN conjunct1]
  note paths = t [THEN conjunct2, THEN conjunct2, THEN conjunct1]
  note same = t [THEN conjunct2, THEN conjunct2, THEN conjunct2, THEN conjunct2, THEN conjunct1]
  note kept = t [THEN conjunct2, THEN conjunct2, THEN conjunct2, THEN conjunct2, THEN conjunct2,
    THEN conjunct1]
  have "fst (run (Suc 0) no_marker only_url Map.empty) = Normal"
    by (simp only: ends) (simp add: shutdown_def stmt_defs no_marker_answers)
  moreover have "capture_paths (trace (snd (run (Suc 0) no_marker only_url Map.empty))) =
      [''img/prezi-0.png'', ''img/prezi-1.png'']"
    using paths by (simp add: only_url_constants outputPath_img outputPath_img_Suc_0)
  moreover have "files (snd (run (Suc 0) no_marker only_url Map.empty)) ''img/prezi-1.png'' \<noteq> None"
    using kept by (simp only: same only_url_constants outputPath_img_Suc_0) simp
  ultimately show ?thesis using stopped by (intro conjI)
qed

section \<open>The postprocessor and the viewport\<close>

lemma obeys_appends_lambdas:
  "obeys (appends P) (\<lambda>s. (Normal, s\<lparr>n_slide := g s\<rparr>))"
  "P Screenshot \<Longrightarrow> (\<And>buf w h f p. P (SharpToFile buf w h f p)) \<Longrightarrow>
     obeys (appends P) (\<lambda>s. captureCroppedScreenshot env (q s) s)"
  "obeys (appends P) (checkUrl a)"
  "P (ExistsSync (out a)) \<Longrightarrow> P (MkdirSync (out a)) \<Longrightarrow> obeys (appends P) (ensureOutDir env a)"
  by (simp_all add: obeys_def appends_def stmt_defs checkUrl_def ensureOutDir_def Let_def)

lemma script_viewport: "obeys (appends (session_viewport a)) (script fuel env a)"
  unfolding script_def init_def consentDismissal_def presentEntry_def viewerReady_def
    fullscreenEnter_def firstCapture_def loopBody_def advanceLoop_def shutdown_def
  by (simp add: obeys_block_list obeys_try_catch obeys_while_true preorder_appends
      obeys_appends_invoke obeys_appends_emit obeys_appends_if_found obeys_appends_simple
      obeys_appends_lambdas session_viewport_def)

lemma rest_appends:
  "obeys (appends (\<lambda>c. True))
     (block [consentDismissal env, presentEntry env, viewerReady env, fullscreenEnter env,
             firstCapture env a, advanceLoop fuel env a, shutdown env])"
  unfolding consentDismissal_def presentEntry_def viewerReady_def
    fullscreenEnter_def firstCapture_def loopBody_def advanceLoop_def shutdown_def
  by (simp add: obeys_block_list obeys_try_catch obeys_while_true preorder_appends
      obeys_appends_invoke obeys_appends_emit obeys_appends_if_found obeys_appends_simple
      obeys_appends_lambdas)



lemma script_after_init:
  "script fuel env a s =
     (case configuration env a s of
        (Normal, s1) \<Rightarrow>
          (case init env a s1 of (Normal, s2) \<Rightarrow> navigation fuel env a s2 | r \<Rightarrow> r)
      | r \<Rightarrow> r)"
  by (simp add: script_def configuration_def navigation_def split: prod.splits completion.splits)

lemma navigation_prefix: "prefix (trace s) (trace (snd (navigation fuel env a s)))"
proof -
  have "obeys (appends (\<lambda>c. True)) (navigation fuel env a)"
    unfolding navigation_def by (rule rest_appends)
  then obtain t where "trace (snd (navigation fuel env a s)) = trace s @ t"
    unfolding obeys_def appends_def by blast
  then show ?thesis
    by (simp add: prefix_def)
qed

lemma init_prefix: "prefix (trace s) (trace (snd (init env a s)))"
  by (simp add: init_def stmt_defs)

lemma init_viewport:
  assumes "resolves env (trace s @ [ConsoleLog ''Launching Puppeteer with bundled Chromium...''])
             (Launch True [''--no-sandbox'', ''--disable-setuid-sandbox''])"
    and "resolves env (trace s @ [ConsoleLog ''Launching Puppeteer with bundled Chromium...'',
             Launch True [''--no-sandbox'', ''--disable-setuid-sandbox'']]) NewPage"
  shows "prefix (trace s @ [ConsoleLog ''Launching Puppeteer with bundled Chromium...'',
             Launch True [''--no-sandbox'', ''--disable-setuid-sandbox''], NewPage,
             SetViewport (width a) (height a) 1])
           (trace (snd (init env a s)))"
  using assms by (simp add: init_def stmt_defs)

lemma directory_calls:
  assumes "truthy (arg_url a)"
  shows "trace (snd (configuration env a (start fs))) =
           ExistsSync (out a) # (if found env [] (ExistsSync (out a)) then [] else [MkdirSync (out a)])"
    and "fst (configuration env a (start fs)) = Normal \<longleftrightarrow>
           found env [] (ExistsSync (out a)) \<or> resolves env [ExistsSync (out a)] (MkdirSync (out a))"
  using assms
  by (simp_all add: configuration_def checkUrl_def ensureOutDir_def stmt_defs prezi_def js_or_def
      start_def Let_def)

lemma run_after_directory:
  "prefix (trace (snd (configuration env a (start fs)))) (trace (snd (run fuel env a fs)))"
proof -
  obtain c1 s1 where d: "configuration env a (start fs) = (c1, s1)"
    by (cases "configuration env a (start fs)")
  obtain c2 s2 where i: "init env a s1 = (c2, s2)"
    by (cases "init env a s1")
  have p1: "prefix (trace s1) (trace s2)"
    using init_prefix [of s1 env a] i by simp
  have p2: "prefix (trace s2) (trace (snd (navigation fuel env a s2)))"
    by (rule navigation_prefix)
  have p3: "prefix (trace s1) (trace (snd (navigation fuel env a s2)))"
    using p1 p2 by (rule prefix_order.trans)
  show ?thesis
  proof (cases c1)
    case Normal
    then show ?thesis
      using p1 p3 by (cases c2) (simp_all add: run_def script_after_init d i)
  qed (simp_all add: run_def script_after_init d)
qed

lemma run_after_viewport:
  assumes "configuration env a (start fs) = (Normal, s1)"
    and "prefix t (trace (snd (init env a s1)))"
  shows "prefix t (trace (snd (run fuel env a fs)))"
proof -
  obtain c2 s2 where i: "init env a s1 = (c2, s2)"
    by (cases "init env a s1")
  have p2: "prefix (trace s2) (trace (snd (navigation fuel env a s2)))"
    by (rule navigation_prefix)
  have p3: "prefix t (trace (snd (navigation fuel env a s2)))"
    using assms(2) p2 i by (auto intro: prefix_order.trans)
  show ?thesis
    using assms(2) p3 by (cases c2) (simp_all add: run_def script_after_init assms(1) i)
qed

lemma run_viewport_calls:
  "\<forall>c\<in>set (trace (snd (run fuel env a fs))). session_viewport a c"
proof -
  have "appends (session_viewport a) (start fs) (snd (run fuel env a fs))"
    using script_viewport [of a fuel env] by (simp add: obeys_def run_def)
  then show ?thesis
    by (auto simp: appends_def start_def list_all_iff)
qed

text \<open>
  Claim C8. Without \<^verbatim>\<open>--out\<close>, \<^verbatim>\<open>--width\<close> and \<^verbatim>\<open>--height\<close> the session uses
  the directory \<^verbatim>\<open>img\<close>, the width 595 and the height 842. Every viewport the run
  sets is 595 by 842 with scale factor 1. When the URL is given, the run begins by testing
  for the directory \<^verbatim>\<open>img\<close> and creates it when the test fails; when the directory
  is there and the browser and the page are obtained, the next call sets that viewport.
\<close>

theorem defaults_when_arguments_absent:
  assumes "arg_out a = JUndefined" "arg_width a = JUndefined" "arg_height a = JUndefined"
  shows "out a = JStr ''img'' \<and> width a = JNum 595 \<and> height a = JNum 842
       \<and> (\<forall>c\<in>set (trace (snd (run fuel env a fs))).
             viewport_of c = None \<or> viewport_of c = Some (JNum 595, JNum 842, 1))
       \<and> (let d = ExistsSync (JStr ''img'') #
                    (if found env [] (ExistsSync (JStr ''img'')) then [] else [MkdirSync (JStr ''img'')]);
               l = ConsoleLog ''Launching Puppeteer with bundled Chromium...'';
               b = Launch True [''--no-sandbox'', ''--disable-setuid-sandbox'']
           in (truthy (arg_url a) \<longrightarrow> prefix d (trace (snd (run fuel env a fs))))
            \<and> (truthy (arg_url a)
                 \<and> (found env [] (ExistsSync (JStr ''img''))
                      \<or> resolves env [ExistsSync (JStr ''img'')] (MkdirSync (JStr ''img'')))
                 \<and> resolves env (d @ [l]) b \<and> resolves env (d @ [l, b]) NewPage
                \<longrightarrow> prefix (d @ [l, b, NewPage, SetViewport (JNum 595) (JNum 842) 1])
                           (trace (snd (run fuel env a fs)))))"
proof -
  let ?d = "ExistsSync (JStr ''img'') #
              (if found env [] (ExistsSync (JStr ''img'')) then [] else [MkdirSync (JStr ''img'')])"
  let ?l = "ConsoleLog ''Launching Puppeteer with bundled Chromium...''"
  let ?b = "Launch True [''--no-sandbox'', ''--disable-setuid-sandbox'']"
  have defaults: "out a = JStr ''img''" "width a = JNum 595" "height a = JNum 842"
    using assms by (simp_all add: out_def width_def height_def js_or_def)
  have viewport: "\<forall>c\<in>set (trace (snd (run fuel env a fs))).
      viewport_of c = None \<or> viewport_of c = Some (JNum 595, JNum 842, 1)"
    using run_viewport_calls [of fuel env a fs] by (simp add: session_viewport_def defaults)
  have dir: "prefix ?d (trace (snd (run fuel env a fs)))" if "truthy (arg_url a)"
    using run_after_directory [of env a fs fuel]
    by (simp only: directory_calls(1) [OF that, unfolded defaults])
  have page: "prefix (?d @ [?l, ?b, NewPage, SetViewport (JNum 595) (JNum 842) 1])
                (trace (snd (run fuel env a fs)))"
    if u: "truthy (arg_url a)"
      and m: "found env [] (ExistsSync (JStr ''img''))
              \<or> resolves env [ExistsSync (JStr ''img'')] (MkdirSync (JStr ''img''))"
      and r: "resolves env (?d @ [?l]) ?b" "resolves env (?d @ [?l, ?b]) NewPage"
  proof -
    let ?s1 = "snd (configuration env a (start fs))"
    have t1: "trace ?s1 = ?d"
      by (rule directory_calls(1) [OF u, unfolded defaults])
    have "fst (configuration env a (start fs)) = Normal"
      using m by (simp only: directory_calls(2) [OF u, unfolded defaults])
    then have c: "configuration env a (start fs) = (Normal, ?s1)"
      by (simp add: prod_eq_iff)
    have "prefix (trace ?s1 @ [?l, ?b, NewPage, SetViewport (width a) (height a) 1])
            (trace (snd (init env a ?s1)))"
      using r by (intro init_viewport) (simp_all only: t1)
    then have "prefix (?d @ [?l, ?b, NewPage, SetViewport (JNum 595) (JNum 842) 1])
            (trace (snd (init env a ?s1)))"
      by (simp only: t1 defaults)
    from run_after_viewport [OF c this] show ?thesis .
  qed
  show ?thesis
    unfolding Let_def using defaults viewport dir page by (intro conjI impI) blast+
qed

theorem defaults_when_arguments_absent_witness:
  "out only_url = JStr ''img'' \<and> width only_url = JNum 595 \<and> height only_url = JNum 842
   \<and> prefix [ExistsSync (JStr ''img''), MkdirSync (JStr ''img''),
             ConsoleLog ''Launching Puppeteer with bundled Chromium...'',
             Launch True [''--no-sandbox'', ''--disable-setuid-sandbox''], NewPage,
             SetViewport (JNum 595) (JNum 842) 1]
        (trace (snd (run 6 (deck 5) only_url Map.empty)))"
proof -
  have absent: "arg_out only_url = JUndefined" "arg_width only_url = JUndefined"
    "arg_height only_url = JUndefined"
    by (simp_all add: only_url_def no_args_def)
  have world: "resolves (deck 5) h c" "\<not> found (deck 5) h (ExistsSync v)" for h c v
    by (simp_all add: deck_def)
  note t = defaults_when_arguments_absent [OF absent, of 6 "deck 5" Map.empty]
  show ?thesis
    using t only_url_truthy by (simp add: Let_def world)
qed

end
